theory Spec2Isabelle
  imports Main "HOL-Library.Word" "HOL-Library.Finite_Map" "HOL-Library.Signed_Division"
begin

section \<open>dumbsnake: the data model of \<^verbatim>\<open>dumbsnake.c\<close>\<close>

text \<open>
  The program is one C file. Its \<^verbatim>\<open>size_t\<close> is the 64-bit unsigned integer of an
  LP64 platform, modelled as \<open>64 word\<close>: addition wraps, and the conversion of the
  \<^verbatim>\<open>int\<close> direction \<open>-1\<close> to \<^verbatim>\<open>size_t\<close> is \<open>word_of_int\<close>. The \<^verbatim>\<open>int\<close>
  variables of the program (directions, key codes, \<^verbatim>\<open>COLS\<close>, \<^verbatim>\<open>LINES\<close>) never
  leave a small range and are modelled as \<open>int\<close>.

  Struct fields carry the suffix \<open>_C\<close>, the local variables of \<^verbatim>\<open>game()\<close> the suffix
  \<open>_G\<close>: the bare names (\<open>text\<close>, \<open>next\<close>, \<open>x\<close>, \<open>dx\<close>, ...) are keywords of
  Isabelle or would capture the variables of every later statement.
\<close>

type_synonym size_t = "64 word"

text \<open>\<^verbatim>\<open>DS_FULL_GROWN_LEN\<close>, \<^verbatim>\<open>DS_CHAR_SNAKE_BODY\<close>, \<^verbatim>\<open>DS_CHAR_FLOOR\<close>.\<close>

definition DS_FULL_GROWN_LEN :: size_t where
  "DS_FULL_GROWN_LEN = 15"

definition DS_CHAR_SNAKE_BODY :: char where
  "DS_CHAR_SNAKE_BODY = CHR ''X''"

definition DS_CHAR_FLOOR :: char where
  "DS_CHAR_FLOOR = CHR '' ''"

text \<open>
  \<^verbatim>\<open>board_t\<close>. The buffer \<^verbatim>\<open>text\<close> is the list of its bytes (\<open>width * height\<close> cells and
  the terminating NUL); a row pointer \<^verbatim>\<open>array[y]\<close> points into that buffer and is
  kept as its offset from \<^verbatim>\<open>text\<close>.
\<close>

record board_t =
  text_C :: "char list"
  array_C :: "nat list"
  height_C :: size_t
  width_C :: size_t

record pos_t =
  x_C :: size_t
  y_C :: size_t

text \<open>
  The snake's parts live in the heap, a finite map from addresses to parts; a pointer
  to a part is an \<open>addr option\<close>, \<open>None\<close> being \<^verbatim>\<open>NULL\<close>.
\<close>

type_synonym addr = nat

record snake_part_t =
  pos_C :: pos_t
  prev_C :: "addr option"
  next_C :: "addr option"

record snake_t =
  len_C :: size_t
  head_C :: "addr option"
  tail_C :: "addr option"

type_synonym heap = "(addr, snake_part_t) fmap"

text \<open>
  How a call can end without returning: a failed \<^verbatim>\<open>assert\<close> aborts the process;
  a \<^verbatim>\<open>NULL\<close> or dangling pointer dereference, a write outside a buffer and a division
  by zero are undefined behaviour.
\<close>

datatype error = AssertionFailed | UndefinedBehaviour

text \<open>Reading through a pointer to a part: \<^verbatim>\<open>p->...\<close>.\<close>

definition deref :: "heap \<Rightarrow> addr option \<Rightarrow> error + snake_part_t" where
  "deref h p =
     (case p of
        None \<Rightarrow> Inl UndefinedBehaviour
      | Some a \<Rightarrow> (case fmlookup h a of
                    None \<Rightarrow> Inl UndefinedBehaviour
                  | Some part \<Rightarrow> Inr part))"

text \<open>
  The assignment \<^verbatim>\<open>board->array[y][x] = c\<close>: the row pointer is read from the
  \<open>height\<close> pointers of \<^verbatim>\<open>array\<close>, and the byte written lies inside the buffer.
\<close>

definition board_put :: "board_t \<Rightarrow> size_t \<Rightarrow> size_t \<Rightarrow> char \<Rightarrow> error + board_t" where
  "board_put b y x c =
     (if unat y < length (array_C b) then
        (let off = array_C b ! unat y + unat x in
         if off < length (text_C b)
         then Inr (b\<lparr>text_C := (text_C b)[off := c]\<rparr>)
         else Inl UndefinedBehaviour)
      else Inl UndefinedBehaviour)"

section \<open>The board\<close>

text \<open>\<^verbatim>\<open>DS_MIN\<close>, on \<^verbatim>\<open>size_t\<close> operands.\<close>

definition DS_MIN :: "size_t \<Rightarrow> size_t \<Rightarrow> size_t" where
  "DS_MIN a b = (if a < b then a else b)"

definition NUL :: char where
  "NUL = CHR 0x00"

text \<open>The string \<^verbatim>\<open>help\<close> of line 98, without its terminator (\<open>help\<close> is a keyword of Isabelle).\<close>

definition help_str :: string where
  "help_str = ''Press '' @ [CHR 0x27] @ ''q'' @ [CHR 0x27] @ '' to quit, '' @
          [CHR 0x27] @ ''p'' @ [CHR 0x27] @ '' to pause.''"

text \<open>
  \<^verbatim>\<open>strncpy(dst, src, n)\<close> of the C library, for a source string \<open>src\<close> given without
  its terminator: the first \<open>n\<close> bytes of \<open>dst\<close> become the first \<open>n\<close> characters of
  \<open>src\<close>, padded with NUL when \<open>src\<close> is shorter; no terminator is added otherwise.
\<close>

definition strncpy :: "char list \<Rightarrow> string \<Rightarrow> size_t \<Rightarrow> error + char list" where
  "strncpy dst src n =
     (if unat n \<le> length dst
      then Inr (take (unat n) (src @ replicate (unat n) NUL) @ drop (unat n) dst)
      else Inl UndefinedBehaviour)"

text \<open>
  The two loops of \<^verbatim>\<open>ds_board_create\<close> (lines 90--95). Their bounds are the
  parameters \<^verbatim>\<open>width\<close> and \<^verbatim>\<open>height\<close> of the function; the inner loop writes through
  the row pointer that the outer loop has just stored.
\<close>

function fill_row :: "size_t \<Rightarrow> board_t \<Rightarrow> size_t \<Rightarrow> size_t \<Rightarrow> error + board_t" where
  "fill_row width b y x =
     (if x < width then
        (case board_put b y x DS_CHAR_FLOOR of
           Inl e \<Rightarrow> Inl e
         | Inr b' \<Rightarrow> fill_row width b' y (x + 1))
      else Inr b)"
  by pat_completeness auto
termination
proof (relation "measure (\<lambda>(width, b, y, x). unat width - unat x)")
  show "wf (measure (\<lambda>(width, b, y, x). unat width - unat x))"
    by simp
next
  fix width :: size_t and b y x b'
  assume "x < width"
  then have less: "unat x < unat width"
    by (simp add: word_less_nat_alt)
  have "unat width < 2 ^ 64"
    using unsigned_less [of width] by simp
  with less have "unat x + unat (1 :: size_t) < 2 ^ LENGTH(64)"
    by simp
  then have "unat (x + 1) = unat x + 1"
    by (simp add: unat_add_lem [THEN iffD1])
  with less show "((width, b', y, x + 1), (width, b, y, x))
      \<in> measure (\<lambda>(width, b, y, x). unat width - unat x)"
    by simp
qed

function fill_rows :: "size_t \<Rightarrow> size_t \<Rightarrow> board_t \<Rightarrow> size_t \<Rightarrow> error + board_t" where
  "fill_rows width height b y =
     (if y < height then
        (if unat y < length (array_C b) then
           (case fill_row width (b\<lparr>array_C := (array_C b)[unat y := unat (y * width)]\<rparr>) y 0 of
              Inl e \<Rightarrow> Inl e
            | Inr b' \<Rightarrow> fill_rows width height b' (y + 1))
         else Inl UndefinedBehaviour)
      else Inr b)"
  by pat_completeness auto
termination
proof (relation "measure (\<lambda>(width, height, b, y). unat height - unat y)")
  show "wf (measure (\<lambda>(width, height, b, y). unat height - unat y))"
    by simp
next
  fix width height :: size_t and b y b'
  assume "y < height"
  then have less: "unat y < unat height"
    by (simp add: word_less_nat_alt)
  have "unat height < 2 ^ 64"
    using unsigned_less [of height] by simp
  with less have "unat y + unat (1 :: size_t) < 2 ^ LENGTH(64)"
    by simp
  then have "unat (y + 1) = unat y + 1"
    by (simp add: unat_add_lem [THEN iffD1])
  with less show "((width, height, b', y + 1), (width, height, b, y))
      \<in> measure (\<lambda>(width, height, b, y). unat height - unat y)"
    by simp
qed

text \<open>
  \<^verbatim>\<open>ds_board_create\<close> (lines 69--102). The first three arguments are what the three
  calls of \<^verbatim>\<open>malloc\<close> returned: \<open>None\<close> for \<^verbatim>\<open>NULL\<close>; for the buffer and for the row
  pointers, \<open>Some g\<close> is a block of the requested size whose indeterminate content at
  offset \<open>i\<close> is \<open>g i\<close>. The requested sizes are computed in \<^verbatim>\<open>size_t\<close>, a row pointer
  being 8 bytes.
\<close>

definition ds_board_create ::
  "addr option \<Rightarrow> (nat \<Rightarrow> char) option \<Rightarrow> (nat \<Rightarrow> nat) option \<Rightarrow> size_t \<Rightarrow> size_t
     \<Rightarrow> error + board_t" where
  "ds_board_create m_board m_text m_array width height =
     (if \<not> 0 < width then Inl AssertionFailed
      else if \<not> 0 < height then Inl AssertionFailed
      else
        (case m_board of
           None \<Rightarrow> Inl AssertionFailed
         | Some _ \<Rightarrow>
            let len = width * height in
            (case m_text of
               None \<Rightarrow> Inl AssertionFailed
             | Some text_block \<Rightarrow>
                let text0 = map text_block [0..<unat (len + 1)] in
                if \<not> unat len < length text0 then Inl UndefinedBehaviour
                else
                  let text1 = text0[unat len := NUL] in
                  (case m_array of
                     None \<Rightarrow> Inl AssertionFailed
                   | Some array_block \<Rightarrow>
                      let board = \<lparr>text_C = text1,
                                   array_C = map array_block [0..<unat (8 * height) div 8],
                                   height_C = height, width_C = width\<rparr>
                      in (case fill_rows width height board 0 of
                            Inl e \<Rightarrow> Inl e
                          | Inr board1 \<Rightarrow>
                             (case strncpy (text_C board1) help_str
                                     (DS_MIN (word_of_nat (length help_str)) len) of
                                Inl e \<Rightarrow> Inl e
                              | Inr text2 \<Rightarrow> Inr (board1\<lparr>text_C := text2\<rparr>)))))))"

section \<open>The snake\<close>

text \<open>
  \<^verbatim>\<open>ds_snake_create\<close> (lines 118--135). The first two arguments are what the two
  calls of \<^verbatim>\<open>malloc\<close> returned, for the \<^verbatim>\<open>snake_t\<close> and for its first part; the
  \<^verbatim>\<open>snake_t\<close> itself is passed around as a value. The \<^verbatim>\<open>int\<close> coordinates are
  converted to \<^verbatim>\<open>size_t\<close> by the assignments to \<^verbatim>\<open>pos.x\<close> and \<^verbatim>\<open>pos.y\<close>.
\<close>

definition ds_snake_create ::
  "addr option \<Rightarrow> addr option \<Rightarrow> heap \<Rightarrow> int \<Rightarrow> int \<Rightarrow> error + (heap \<times> snake_t)" where
  "ds_snake_create m_snake m_part h x y =
     (case m_snake of
        None \<Rightarrow> Inl AssertionFailed
      | Some _ \<Rightarrow>
         (case m_part of
            None \<Rightarrow> Inl AssertionFailed
          | Some part \<Rightarrow>
             Inr (fmupd part \<lparr>pos_C = \<lparr>x_C = word_of_int x, y_C = word_of_int y\<rparr>,
                              prev_C = None, next_C = None\<rparr> h,
                  \<lparr>len_C = 1, head_C = Some part, tail_C = Some part\<rparr>)))"

text \<open>
  \<^verbatim>\<open>ds_snake_move\<close> (lines 156--187). The first argument is what \<^verbatim>\<open>malloc\<close>
  returned for the new part: \<open>None\<close> for \<^verbatim>\<open>NULL\<close>, or the address of the new block.
  The snake and the board are passed as pointers in C; \<open>None\<close> is \<^verbatim>\<open>NULL\<close>.
  The two halves of the function body are the blocks the source comments as
  ``Add new head'' and ``Cut off tail''.
\<close>

text \<open>
  The position given to the new part (lines 167--168): the operands are \<^verbatim>\<open>size_t\<close>,
  so \<^verbatim>\<open>dx\<close> and \<^verbatim>\<open>dy\<close> are converted to \<^verbatim>\<open>size_t\<close> and the sums wrap at \<open>2^64\<close>
  before the remainder is taken.
\<close>

definition moved :: "board_t \<Rightarrow> pos_t \<Rightarrow> int \<Rightarrow> int \<Rightarrow> pos_t" where
  "moved b p dx dy =
     \<lparr>x_C = (x_C p + word_of_int dx + width_C b) mod width_C b,
      y_C = (y_C p + word_of_int dy + height_C b) mod height_C b\<rparr>"

definition ds_snake_add_head ::
  "addr option \<Rightarrow> heap \<Rightarrow> snake_t \<Rightarrow> board_t \<Rightarrow> int \<Rightarrow> int \<Rightarrow> error + (heap \<times> snake_t \<times> board_t)" where
  "ds_snake_add_head m h s b dx dy =
     (case m of
        None \<Rightarrow> Inl AssertionFailed
      | Some part \<Rightarrow>
         (case deref h (head_C s) of
            Inl e \<Rightarrow> Inl e
          | Inr hd_part \<Rightarrow>
             if width_C b = 0 \<or> height_C b = 0 then Inl UndefinedBehaviour
             else
               let p = moved b (pos_C hd_part) dx dy;
                   h1 = fmupd part \<lparr>pos_C = p, prev_C = None, next_C = head_C s\<rparr> h
               in (case board_put b (y_C p) (x_C p) DS_CHAR_SNAKE_BODY of
                     Inl e \<Rightarrow> Inl e
                   | Inr b1 \<Rightarrow>
                      (case head_C s of
                         None \<Rightarrow> Inl UndefinedBehaviour
                       | Some a \<Rightarrow>
                          (case fmlookup h1 a of
                             None \<Rightarrow> Inl UndefinedBehaviour
                           | Some old_head \<Rightarrow>
                              Inr (fmupd a (old_head\<lparr>prev_C := Some part\<rparr>) h1,
                                   s\<lparr>head_C := Some part, len_C := len_C s + 1\<rparr>,
                                   b1))))))"

definition ds_snake_cut_tail ::
  "heap \<Rightarrow> snake_t \<Rightarrow> board_t \<Rightarrow> error + (heap \<times> snake_t \<times> board_t)" where
  "ds_snake_cut_tail h s b =
     (if DS_FULL_GROWN_LEN < len_C s then
        (case tail_C s of
           None \<Rightarrow> Inl UndefinedBehaviour
         | Some tail_backup \<Rightarrow>
            (case deref h (tail_C s) of
               Inl e \<Rightarrow> Inl e
             | Inr t \<Rightarrow>
                (case prev_C t of
                   None \<Rightarrow> Inl UndefinedBehaviour
                 | Some q \<Rightarrow>
                    (case fmlookup h q of
                       None \<Rightarrow> Inl UndefinedBehaviour
                     | Some before_tail \<Rightarrow>
                        let h1 = fmupd q (before_tail\<lparr>next_C := None\<rparr>) h in
                        (case deref h1 (tail_C s) of
                           Inl e \<Rightarrow> Inl e
                         | Inr t1 \<Rightarrow>
                            let s1 = s\<lparr>tail_C := prev_C t1\<rparr> in
                            (case deref h1 (Some tail_backup) of
                               Inl e \<Rightarrow> Inl e
                             | Inr tb \<Rightarrow>
                                (case board_put b (y_C (pos_C tb)) (x_C (pos_C tb)) DS_CHAR_FLOOR of
                                   Inl e \<Rightarrow> Inl e
                                 | Inr b1 \<Rightarrow>
                                    Inr (fmdrop tail_backup h1,
                                         s1\<lparr>len_C := len_C s1 - 1\<rparr>,
                                         b1))))))))
      else Inr (h, s, b))"

definition ds_snake_move ::
  "addr option \<Rightarrow> heap \<Rightarrow> snake_t option \<Rightarrow> board_t option \<Rightarrow> int \<Rightarrow> int
     \<Rightarrow> error + (heap \<times> snake_t \<times> board_t)" where
  "ds_snake_move m h snake board dx dy =
     (case snake of
        None \<Rightarrow> Inl AssertionFailed
      | Some s \<Rightarrow>
         (case board of
            None \<Rightarrow> Inl AssertionFailed
          | Some b \<Rightarrow>
             if \<not> (dx = 0 \<or> dx = 1 \<or> dx = -1) then Inl AssertionFailed
             else if \<not> (dy = 0 \<or> dy = 1 \<or> dy = -1) then Inl AssertionFailed
             else if \<not> ((dx = 0) \<noteq> (dy = 0)) then Inl AssertionFailed
             else (case ds_snake_add_head m h s b dx dy of
                     Inl e \<Rightarrow> Inl e
                   | Inr (h1, s1, b1) \<Rightarrow> ds_snake_cut_tail h1 s1 b1)))"

text \<open>The directions that pass the three assertions of lines 160--162.\<close>

definition valid_direction :: "int \<Rightarrow> int \<Rightarrow> bool" where
  "valid_direction dx dy =
     ((dx = 0 \<or> dx = 1 \<or> dx = -1) \<and> (dy = 0 \<or> dy = 1 \<or> dy = -1) \<and> ((dx = 0) \<noteq> (dy = 0)))"

text \<open>
  \<^verbatim>\<open>ds_snake_destroy\<close> (lines 137--146): the loop frees the parts along \<^verbatim>\<open>next\<close>.
  Reading a part that has been freed already is undefined behaviour, so the loop
  ends after at most as many rounds as there are allocated parts.
\<close>

function ds_snake_destroy_loop :: "heap \<Rightarrow> addr option \<Rightarrow> error + heap" where
  "ds_snake_destroy_loop h part =
     (case part of
        None \<Rightarrow> Inr h
      | Some a \<Rightarrow>
         (case fmlookup h a of
            None \<Rightarrow> Inl UndefinedBehaviour
          | Some p \<Rightarrow> ds_snake_destroy_loop (fmdrop a h) (next_C p)))"
  by pat_completeness auto
termination
proof (relation "measure (\<lambda>(h, part). card (fmdom' h))")
  show "wf (measure (\<lambda>(h, part). card (fmdom' h)))"
    by simp
next
  fix h :: heap and part a p
  assume "fmlookup h a = Some p"
  then have "a \<in> fmdom' h"
    by (rule fmdom'I)
  then have "card (fmdom' h - {a}) < card (fmdom' h)"
    by (rule card_Diff1_less [OF finite_fmdom'])
  then show "((fmdrop a h, next_C p), (h, part)) \<in> measure (\<lambda>(h, part). card (fmdom' h))"
    by simp
qed

definition ds_snake_destroy :: "heap \<Rightarrow> snake_t \<Rightarrow> error + heap" where
  "ds_snake_destroy h snake = ds_snake_destroy_loop h (head_C snake)"

text \<open>
  \<^verbatim>\<open>ds_board_put_snake\<close> (lines 148--154). Nothing is freed here, so on a cyclic chain
  the loop never ends: the result \<open>None\<close> stands for not returning.
\<close>

partial_function (option) ds_board_put_snake_loop ::
  "heap \<Rightarrow> board_t \<Rightarrow> addr option \<Rightarrow> (error + board_t) option" where
  "ds_board_put_snake_loop h b part =
     (case part of
        None \<Rightarrow> Some (Inr b)
      | Some a \<Rightarrow>
         (case fmlookup h a of
            None \<Rightarrow> Some (Inl UndefinedBehaviour)
          | Some p \<Rightarrow>
             (case board_put b (y_C (pos_C p)) (x_C (pos_C p)) DS_CHAR_SNAKE_BODY of
                Inl e \<Rightarrow> Some (Inl e)
              | Inr b' \<Rightarrow> ds_board_put_snake_loop h b' (next_C p))))"

definition ds_board_put_snake :: "heap \<Rightarrow> board_t \<Rightarrow> snake_t \<Rightarrow> (error + board_t) option" where
  "ds_board_put_snake h board snake = ds_board_put_snake_loop h board (head_C snake)"

section \<open>The game loop\<close>

text \<open>
  The key codes of \<^verbatim>\<open><ncurses.h>\<close> (octal 0402 to 0405) and the characters
  \<^verbatim>\<open>'q'\<close> and \<^verbatim>\<open>'p'\<close> as \<^verbatim>\<open>int\<close>.
\<close>

definition KEY_DOWN :: int where
  "KEY_DOWN = 258"

definition KEY_UP :: int where
  "KEY_UP = 259"

definition KEY_LEFT :: int where
  "KEY_LEFT = 260"

definition KEY_RIGHT :: int where
  "KEY_RIGHT = 261"

definition key_q :: int where
  "key_q = of_char (CHR ''q'')"

definition key_p :: int where
  "key_p = of_char (CHR ''p'')"

text \<open>
  The local variables of \<^verbatim>\<open>game()\<close> that live across the rounds of the main loop,
  and the heap of snake parts. The time stamps of the rhythm are left out.
\<close>

record game_t =
  prev_COLS_G :: int
  prev_LINES_G :: int
  heap_G :: heap
  board_G :: board_t
  snake_G :: snake_t
  dx_G :: int
  dy_G :: int
  prev_key_G :: int
  quit_G :: bool
  paused_G :: bool

text \<open>
  ``Reset on window size change'' (lines 222--231), for the current values of
  \<^verbatim>\<open>COLS\<close> and \<^verbatim>\<open>LINES\<close> and the results of the five calls of \<^verbatim>\<open>malloc\<close>.
  \<^verbatim>\<open>ds_board_destroy\<close> frees the old board, which the model simply drops.
  The division of \<^verbatim>\<open>int\<close> truncates (\<open>sdiv\<close>).
\<close>

definition game_resize ::
  "int \<Rightarrow> int \<Rightarrow> addr option \<Rightarrow> (nat \<Rightarrow> char) option \<Rightarrow> (nat \<Rightarrow> nat) option
     \<Rightarrow> addr option \<Rightarrow> addr option \<Rightarrow> game_t \<Rightarrow> error + game_t" where
  "game_resize COLS LINES m_board m_text m_array m_snake m_part g =
     (if COLS \<noteq> prev_COLS_G g \<or> prev_LINES_G g \<noteq> LINES then
        (case ds_board_create m_board m_text m_array (word_of_int COLS) (word_of_int LINES) of
           Inl e \<Rightarrow> Inl e
         | Inr board \<Rightarrow>
            (case ds_snake_destroy (heap_G g) (snake_G g) of
               Inl e \<Rightarrow> Inl e
             | Inr h1 \<Rightarrow>
                (case ds_snake_create m_snake m_part h1 (COLS sdiv 2) (LINES sdiv 2) of
                   Inl e \<Rightarrow> Inl e
                 | Inr (h2, snake) \<Rightarrow>
                    Inr (g\<lparr>board_G := board, heap_G := h2, snake_G := snake,
                           prev_COLS_G := COLS, prev_LINES_G := LINES\<rparr>))))
      else Inr g)"

text \<open>``Do a single step'' (lines 234--236); printing the board changes no state.\<close>

definition game_step :: "addr option \<Rightarrow> game_t \<Rightarrow> error + game_t" where
  "game_step m g =
     (if \<not> paused_G g then
        (case ds_snake_move m (heap_G g) (Some (snake_G g)) (Some (board_G g)) (dx_G g) (dy_G g) of
           Inl e \<Rightarrow> Inl e
         | Inr (h, s, b) \<Rightarrow> Inr (g\<lparr>heap_G := h, snake_G := s, board_G := b\<rparr>))
      else Inr g)"

text \<open>The \<^verbatim>\<open>switch\<close> on the key (lines 252--283).\<close>

definition game_key :: "int \<Rightarrow> game_t \<Rightarrow> game_t" where
  "game_key key g =
     (if key = key_q then g\<lparr>quit_G := True\<rparr>
      else if key = key_p then g\<lparr>paused_G := \<not> paused_G g\<rparr>
      else if key = KEY_LEFT then (if dx_G g = 0 then g\<lparr>dx_G := -1, dy_G := 0\<rparr> else g)
      else if key = KEY_RIGHT then (if dx_G g = 0 then g\<lparr>dx_G := 1, dy_G := 0\<rparr> else g)
      else if key = KEY_UP then (if dy_G g = 0 then g\<lparr>dx_G := 0, dy_G := -1\<rparr> else g)
      else if key = KEY_DOWN then (if dy_G g = 0 then g\<lparr>dx_G := 0, dy_G := 1\<rparr> else g)
      else g)"

text \<open>
  The inner loop of ``Handle keys'' (lines 240--284). The second argument is the
  queue of pending key events: \<^verbatim>\<open>getch()\<close> takes the first one and returns \<open>-1\<close> when
  the queue is empty. The result is the state after the loop with the events left in
  the queue.
\<close>

fun game_getch_loop :: "game_t \<Rightarrow> int list \<Rightarrow> game_t \<times> int list" where
  "game_getch_loop g [] = (g, [])"
| "game_getch_loop g (key # pending) =
     (if quit_G g then (g, key # pending)
      else if key = -1 then (g, pending)
      else if key = prev_key_G g then game_getch_loop g pending
      else game_getch_loop (game_key key (g\<lparr>prev_key_G := key\<rparr>)) pending)"

text \<open>``Handle keys'' (lines 239--284): one drain pass.\<close>

definition game_keys :: "game_t \<Rightarrow> int list \<Rightarrow> game_t \<times> int list" where
  "game_keys g pending = game_getch_loop (g\<lparr>prev_key_G := -1\<rparr>) pending"

text \<open>
  What a drain pass is to do with the keys that differ from their predecessor:
  each is registered once, in order, until the quit flag is set.
\<close>

fun register_keys :: "int list \<Rightarrow> game_t \<Rightarrow> game_t" where
  "register_keys [] g = g"
| "register_keys (key # keys) g =
     (if quit_G g then g else register_keys keys (game_key key (g\<lparr>prev_key_G := key\<rparr>)))"

text \<open>One round of the main loop (lines 221--284), up to the rhythm.\<close>

definition game_tick ::
  "int \<Rightarrow> int \<Rightarrow> addr option \<Rightarrow> (nat \<Rightarrow> char) option \<Rightarrow> (nat \<Rightarrow> nat) option
     \<Rightarrow> addr option \<Rightarrow> addr option \<Rightarrow> addr option \<Rightarrow> int list \<Rightarrow> game_t
     \<Rightarrow> error + (game_t \<times> int list)" where
  "game_tick COLS LINES m_board m_text m_array m_snake m_part m_move pending g =
     (case game_resize COLS LINES m_board m_text m_array m_snake m_part g of
        Inl e \<Rightarrow> Inl e
      | Inr g1 \<Rightarrow>
         (case game_step m_move g1 of
            Inl e \<Rightarrow> Inl e
          | Inr g2 \<Rightarrow> Inr (game_keys g2 pending)))"

section \<open>The chain of parts\<close>

text \<open>
  \<open>dlist h pv p as\<close>: following \<^verbatim>\<open>next\<close> from the pointer \<open>p\<close> visits exactly the
  parts at the addresses \<open>as\<close> and then reaches \<^verbatim>\<open>NULL\<close>, and the \<^verbatim>\<open>prev\<close> pointer of
  each part is its predecessor (\<open>pv\<close> for the first one).
\<close>

fun dlist :: "heap \<Rightarrow> addr option \<Rightarrow> addr option \<Rightarrow> addr list \<Rightarrow> bool" where
  "dlist h pv p [] = (p = None)"
| "dlist h pv p (a # as) =
     (p = Some a \<and>
      (case fmlookup h a of
         None \<Rightarrow> False
       | Some part \<Rightarrow> prev_C part = pv \<and> dlist h (Some a) (next_C part) as))"

text \<open>
  \<open>snake_chain h s as\<close>: the snake \<open>s\<close> owns the parts at the addresses \<open>as\<close>,
  head first: \<^verbatim>\<open>head\<close> points to the first and \<^verbatim>\<open>tail\<close> to the last part of a
  non-empty doubly linked chain of distinct parts, and \<^verbatim>\<open>len\<close> counts them.
\<close>

definition snake_chain :: "heap \<Rightarrow> snake_t \<Rightarrow> addr list \<Rightarrow> bool" where
  "snake_chain h s as =
     (as \<noteq> [] \<and> distinct as \<and> dlist h None (head_C s) as \<and>
      tail_C s = Some (last as) \<and> unat (len_C s) = length as)"

text \<open>The addresses found by following \<^verbatim>\<open>next\<close> at most \<open>n\<close> times.\<close>

fun walk :: "heap \<Rightarrow> addr option \<Rightarrow> nat \<Rightarrow> addr list" where
  "walk h p 0 = []"
| "walk h p (Suc n) =
     (case p of
        None \<Rightarrow> []
      | Some a \<Rightarrow> (case fmlookup h a of
                    None \<Rightarrow> []
                  | Some part \<Rightarrow> a # walk h (next_C part) n))"

definition segments :: "heap \<Rightarrow> snake_t \<Rightarrow> addr list" where
  "segments h s = walk h (head_C s) (unat (len_C s))"

definition snake_inv :: "heap \<Rightarrow> snake_t \<Rightarrow> bool" where
  "snake_inv h s = snake_chain h s (segments h s)"

text \<open>The positions of the parts at the addresses \<open>as\<close>.\<close>

definition cells :: "heap \<Rightarrow> addr list \<Rightarrow> pos_t list" where
  "cells h as = map (\<lambda>a. pos_C (the (fmlookup h a))) as"

section \<open>The board as a grid\<close>

text \<open>
  \<open>board_inv\<close>: the board is a grid of \<open>width * height\<close> cells followed by the
  terminator, and row \<open>y\<close> starts at offset \<open>y * width\<close>. \<open>board_at b x y\<close> is the
  character \<^verbatim>\<open>board->array[y][x]\<close>, and \<open>on_board\<close> says that a position is a
  cell of the grid.
\<close>

definition board_inv :: "board_t \<Rightarrow> bool" where
  "board_inv b =
     (0 < width_C b \<and> 0 < height_C b \<and>
      array_C b = map (\<lambda>y. y * unat (width_C b)) [0..<unat (height_C b)] \<and>
      length (text_C b) = unat (width_C b) * unat (height_C b) + 1)"

definition board_at :: "board_t \<Rightarrow> size_t \<Rightarrow> size_t \<Rightarrow> char" where
  "board_at b x y = text_C b ! (array_C b ! unat y + unat x)"

definition on_board :: "board_t \<Rightarrow> pos_t \<Rightarrow> bool" where
  "on_board b p = (x_C p < width_C b \<and> y_C p < height_C b)"

definition cell_index :: "board_t \<Rightarrow> pos_t \<Rightarrow> nat" where
  "cell_index b p = unat (y_C p) * unat (width_C b) + unat (x_C p)"

text \<open>Every part of the chain lies on the board.\<close>

definition snake_on_board :: "heap \<Rightarrow> addr list \<Rightarrow> board_t \<Rightarrow> bool" where
  "snake_on_board h as b = list_all (on_board b) (cells h as)"

section \<open>Sequences of moves\<close>

text \<open>
  The states of heap, snake and board that are reached from a call of
  \<^verbatim>\<open>ds_snake_create\<close> by calls of \<^verbatim>\<open>ds_snake_move\<close> that return. Each call of
  \<^verbatim>\<open>malloc\<close> returns \<^verbatim>\<open>NULL\<close> or a block that is not allocated at that moment.
\<close>

inductive reachable :: "heap \<times> snake_t \<times> board_t \<Rightarrow> bool" where
  create:
    "fmlookup h0 a = None \<Longrightarrow> ds_snake_create m_snake (Some a) h0 x y = Inr (h, s)
       \<Longrightarrow> reachable (h, s, b)"
| move:
    "reachable (h, s, b) \<Longrightarrow> fmlookup h a = None
       \<Longrightarrow> ds_snake_move (Some a) h (Some s) (Some b) dx dy = Inr (h', s', b')
       \<Longrightarrow> reachable (h', s', b')"

text \<open>A sequence of calls of \<^verbatim>\<open>ds_snake_move\<close>, each with what \<^verbatim>\<open>malloc\<close> returns to it.\<close>

fun ds_snake_moves ::
  "(addr option \<times> int \<times> int) list \<Rightarrow> heap \<times> snake_t \<times> board_t
     \<Rightarrow> error + (heap \<times> snake_t \<times> board_t)" where
  "ds_snake_moves [] st = Inr st"
| "ds_snake_moves ((m, dx, dy) # calls) (h, s, b) =
     (case ds_snake_move m h (Some s) (Some b) dx dy of
        Inl e \<Rightarrow> Inl e
      | Inr st' \<Rightarrow> ds_snake_moves calls st')"

section \<open>Example states\<close>

text \<open>Blocks as \<^verbatim>\<open>malloc\<close> may return them, filled with question marks and zeros.\<close>

definition junk_text :: "nat \<Rightarrow> char" where
  "junk_text i = CHR ''?''"

definition junk_array :: "nat \<Rightarrow> nat" where
  "junk_array i = 0"

text \<open>
  A board of 4 columns and 3 rows with a new snake in its upper left corner.
\<close>

definition corner_board :: board_t where
  "corner_board =
     \<lparr>text_C = replicate 12 DS_CHAR_FLOOR @ [NUL], array_C = map (\<lambda>y. y * 4) [0..<3],
      height_C = 3, width_C = 4\<rparr>"

definition corner_heap :: heap where
  "corner_heap = fmupd 2 \<lparr>pos_C = \<lparr>x_C = 0, y_C = 0\<rparr>, prev_C = None, next_C = None\<rparr> fmempty"

definition corner_snake :: snake_t where
  "corner_snake = \<lparr>len_C = 1, head_C = Some 2, tail_C = Some 2\<rparr>"

text \<open>
  A terminal of 3 columns and 15 lines that the player does not touch: \<^verbatim>\<open>game()\<close>
  creates the board and the snake at the centre \<open>(1, 7)\<close>, puts the snake on the
  board, and moves it up once per round. \<open>column_start\<close> is the state after 14
  rounds; the blocks of the parts are at the addresses 1 to 15 in the order of their
  allocation.
\<close>

definition column_start :: "error + (heap \<times> snake_t \<times> board_t)" where
  "column_start =
     (case ds_board_create (Some 20) (Some junk_text) (Some junk_array) 3 15 of
        Inl e \<Rightarrow> Inl e
      | Inr board \<Rightarrow>
         (case ds_snake_create (Some 21) (Some 1) fmempty (3 sdiv 2) (15 sdiv 2) of
            Inl e \<Rightarrow> Inl e
          | Inr (h, snake) \<Rightarrow>
             (case ds_board_put_snake h board snake of
                None \<Rightarrow> Inl UndefinedBehaviour
              | Some (Inl e) \<Rightarrow> Inl e
              | Some (Inr board1) \<Rightarrow>
                 ds_snake_moves (map (\<lambda>k. (Some k, 0, -1)) [2..<16]) (h, snake, board1))))"

text \<open>
  That state, written out. The snake is full-grown and fills column 1: the head is
  the part at address 15 in row 8, the tail the part at address 1 in row 7. The board
  is the help text with the snake body written to the 15 cells of the column, in the
  order in which the snake has reached them.
\<close>

definition column_part :: "addr \<Rightarrow> snake_part_t" where
  "column_part k =
     \<lparr>pos_C = \<lparr>x_C = 1, y_C = word_of_nat ((23 - k) mod 15)\<rparr>,
      prev_C = (if k = 15 then None else Some (k + 1)),
      next_C = (if k = 1 then None else Some (k - 1))\<rparr>"

definition column_heap :: heap where
  "column_heap = fmap_of_list (map (\<lambda>k. (k, column_part k)) [1..<16])"

definition column_snake :: snake_t where
  "column_snake = \<lparr>len_C = 15, head_C = Some 15, tail_C = Some 1\<rparr>"

definition column_chain :: "addr list" where
  "column_chain = [15, 14, 13, 12, 11, 10, 9, 8, 7, 6, 5, 4, 3, 2, 1]"

definition column_board :: board_t where
  "column_board =
     \<lparr>text_C = fold (\<lambda>i t. t[i := DS_CHAR_SNAKE_BODY])
                [22, 19, 16, 13, 10, 7, 4, 1, 43, 40, 37, 34, 31, 28, 25]
                (help_str @ replicate 13 DS_CHAR_FLOOR @ [NUL]),
      array_C = map (\<lambda>y. y * 3) [0..<15],
      height_C = 15, width_C = 3\<rparr>"

text \<open>
  What is seen of the head after a call: \<open>None\<close> when the call has failed, otherwise
  the position of the part \<^verbatim>\<open>snake->head\<close> and the character of the board there.
\<close>

definition head_seen :: "error + (heap \<times> snake_t \<times> board_t) \<Rightarrow> (pos_t \<times> char) option" where
  "head_seen r =
     (case r of
        Inl e \<Rightarrow> None
      | Inr (h, s, b) \<Rightarrow>
         (case deref h (head_C s) of
            Inl e \<Rightarrow> None
          | Inr part \<Rightarrow> Some (pos_C part, board_at b (x_C (pos_C part)) (y_C (pos_C part)))))"

text \<open>The same after a move to the left, through the left edge of the board.\<close>

definition corner_heap_left :: heap where
  "corner_heap_left =
     fmupd 2 \<lparr>pos_C = \<lparr>x_C = 0, y_C = 0\<rparr>, prev_C = Some 3, next_C = None\<rparr>
       (fmupd 3 \<lparr>pos_C = \<lparr>x_C = 3, y_C = 0\<rparr>, prev_C = None, next_C = Some 2\<rparr> corner_heap)"

definition corner_snake_left :: snake_t where
  "corner_snake_left = \<lparr>len_C = 2, head_C = Some 3, tail_C = Some 2\<rparr>"

definition corner_board_left :: board_t where
  "corner_board_left = corner_board\<lparr>text_C := (text_C corner_board)[3 := DS_CHAR_SNAKE_BODY]\<rparr>"

text \<open>
  A game in the upper left corner of a terminal of 4 columns and 3 lines, the snake
  moving to the right.
\<close>

definition corner_game :: game_t where
  "corner_game =
     \<lparr>prev_COLS_G = 4, prev_LINES_G = 3, heap_G = corner_heap, board_G = corner_board,
      snake_G = corner_snake, dx_G = 1, dy_G = 0, prev_key_G = -1,
      quit_G = False, paused_G = False\<rparr>"

text \<open>
  The three calls \<^verbatim>\<open>ds_board_create(10, 5)\<close>, \<^verbatim>\<open>ds_snake_create(5, 2)\<close> and
  \<^verbatim>\<open>ds_snake_move(snake, board, 0, -1)\<close> in a row, on an empty heap, and the character
  of the board at column \<open>x\<close> and row \<open>y\<close> after a call (\<open>None\<close> when the call has
  failed).
\<close>

definition three_calls :: "error + (heap \<times> snake_t \<times> board_t)" where
  "three_calls =
     (case ds_board_create (Some 10) (Some junk_text) (Some junk_array) 10 5 of
        Inl e \<Rightarrow> Inl e
      | Inr board \<Rightarrow>
         (case ds_snake_create (Some 11) (Some 12) fmempty 5 2 of
            Inl e \<Rightarrow> Inl e
          | Inr (h, snake) \<Rightarrow> ds_snake_move (Some 13) h (Some snake) (Some board) 0 (-1)))"

definition cell_seen :: "size_t \<Rightarrow> size_t \<Rightarrow> error + (heap \<times> snake_t \<times> board_t) \<Rightarrow> char option" where
  "cell_seen x y r = (case r of Inl e \<Rightarrow> None | Inr (h, s, b) \<Rightarrow> Some (board_at b x y))"

declare fill_row.simps [simp del] fill_rows.simps [simp del] ds_snake_destroy_loop.simps [simp del]

section \<open>Properties of the chain of parts\<close>

lemma dlist_upd_other:
  "a \<notin> set as \<Longrightarrow> dlist (fmupd a v h) pv p as = dlist h pv p as"
  by (induction as arbitrary: pv p) (auto split: option.splits)

lemma dlist_drop_other:
  "a \<notin> set as \<Longrightarrow> dlist (fmdrop a h) pv p as = dlist h pv p as"
  by (induction as arbitrary: pv p) (auto split: option.splits)

lemma dlist_allocated:
  "dlist h pv p as \<Longrightarrow> a \<in> set as \<Longrightarrow> fmlookup h a \<noteq> None"
  by (induction as arbitrary: pv p) (auto split: option.splits)

lemma dlist_walk:
  "dlist h pv p as \<Longrightarrow> walk h p (length as) = as"
  by (induction as arbitrary: pv p) (auto split: option.splits)

lemma dlist_last_two:
  "dlist h pv p (as @ [q, t]) \<Longrightarrow>
     \<exists>nq nt. fmlookup h q = Some nq \<and> next_C nq = Some t \<and>
             fmlookup h t = Some nt \<and> prev_C nt = Some q \<and> next_C nt = None"
  by (induction as arbitrary: pv p) (auto split: option.splits)

lemma dlist_cut_last:
  "dlist h pv p (as @ [q, t]) \<Longrightarrow> distinct (as @ [q, t]) \<Longrightarrow> fmlookup h q = Some nq \<Longrightarrow>
     dlist (fmdrop t (fmupd q (nq\<lparr>next_C := None\<rparr>) h)) pv p (as @ [q])"
  by (induction as arbitrary: pv p) (auto split: option.splits)

lemma dlist_fresh:
  "dlist h pv p as \<Longrightarrow> fmlookup h a = None \<Longrightarrow> a \<notin> set as"
  using dlist_allocated by blast

lemma dlist_push:
  assumes "dlist h None (Some a0) as" "distinct as" "fmlookup h a = None"
    and "fmlookup h a0 = Some n0"
  shows "dlist (fmupd a0 (n0\<lparr>prev_C := Some a\<rparr>)
                 (fmupd a \<lparr>pos_C = p, prev_C = None, next_C = Some a0\<rparr> h))
           None (Some a) (a # as)"
proof -
  from assms(1) obtain rest where as: "as = a0 # rest"
    by (cases as) auto
  from assms(1,4) as have rest: "dlist h (Some a0) (next_C n0) rest"
    by simp
  from assms(2) as have "a0 \<notin> set rest"
    by simp
  moreover from assms(1,3) have "a \<notin> set as"
    by (rule dlist_fresh)
  moreover from assms(3,4) have "a \<noteq> a0"
    by auto
  ultimately show ?thesis
    using rest as by (simp add: dlist_upd_other)
qed


lemma cell_index_less:
  assumes "board_inv b" "on_board b p"
  shows "cell_index b p < unat (width_C b) * unat (height_C b)"
proof -
  from assms(2) have x: "unat (x_C p) < unat (width_C b)" and y: "unat (y_C p) < unat (height_C b)"
    by (simp_all add: on_board_def word_less_nat_alt)
  from y have "Suc (unat (y_C p)) \<le> unat (height_C b)"
    by simp
  then have "Suc (unat (y_C p)) * unat (width_C b) \<le> unat (height_C b) * unat (width_C b)"
    by (rule mult_le_mono1)
  with x show ?thesis
    by (simp add: cell_index_def mult.commute)
qed

lemma board_put_on_board:
  assumes "board_inv b" "on_board b p"
  shows "board_put b (y_C p) (x_C p) c = Inr (b\<lparr>text_C := (text_C b)[cell_index b p := c]\<rparr>)"
proof -
  from assms(2) have y: "unat (y_C p) < unat (height_C b)"
    by (simp add: on_board_def word_less_nat_alt)
  from assms(1) have arr: "array_C b = map (\<lambda>y. y * unat (width_C b)) [0..<unat (height_C b)]"
    and len: "length (text_C b) = unat (width_C b) * unat (height_C b) + 1"
    by (simp_all add: board_inv_def)
  from y arr have off: "array_C b ! unat (y_C p) + unat (x_C p) = cell_index b p"
    by (simp add: cell_index_def)
  from cell_index_less [OF assms] len have "cell_index b p < length (text_C b)"
    by simp
  with y arr off show ?thesis
    by (simp add: board_put_def)
qed

lemma board_at_on_board:
  assumes "board_inv b" "on_board b p"
  shows "board_at b (x_C p) (y_C p) = text_C b ! cell_index b p"
proof -
  from assms(2) have y: "unat (y_C p) < unat (height_C b)"
    by (simp add: on_board_def word_less_nat_alt)
  with assms(1) show ?thesis
    by (simp add: board_at_def board_inv_def cell_index_def)
qed

lemma board_inv_text_upd:
  "board_inv b \<Longrightarrow> board_inv (b\<lparr>text_C := (text_C b)[i := c]\<rparr>)"
  by (simp add: board_inv_def)

lemma moved_on_board:
  "width_C b \<noteq> 0 \<Longrightarrow> height_C b \<noteq> 0 \<Longrightarrow> on_board b (moved b p dx dy)"
  by (simp add: on_board_def moved_def word_mod_less_divisor word_neq_0_conv)

lemma cells_upd_other:
  "a \<notin> set as \<Longrightarrow> cells (fmupd a v h) as = cells h as"
  by (simp add: cells_def)

lemma cells_drop_other:
  "a \<notin> set as \<Longrightarrow> cells (fmdrop a h) as = cells h as"
  by (simp add: cells_def)

lemma add_head_chain:
  assumes chain: "snake_chain h s as" and fresh: "fmlookup h a = None"
    and dims: "width_C b \<noteq> 0" "height_C b \<noteq> 0" and short: "length as \<le> 15"
  shows "\<exists>h' s'.
           ds_snake_add_head (Some a) h s b dx dy =
             (case board_put b (y_C (moved b (hd (cells h as)) dx dy))
                     (x_C (moved b (hd (cells h as)) dx dy)) DS_CHAR_SNAKE_BODY of
                Inl e \<Rightarrow> Inl e
              | Inr b1 \<Rightarrow> Inr (h', s', b1)) \<and>
           snake_chain h' s' (a # as) \<and>
           cells h' (a # as) = moved b (hd (cells h as)) dx dy # cells h as \<and>
           len_C s' = len_C s + 1"
proof -
  from chain have ne: "as \<noteq> []" and dist: "distinct as"
    and dl: "dlist h None (head_C s) as" and tl: "tail_C s = Some (last as)"
    and len: "unat (len_C s) = length as"
    by (simp_all add: snake_chain_def)
  from ne obtain a0 rest where as: "as = a0 # rest"
    by (cases as) auto
  from dl as obtain n0 where hd: "head_C s = Some a0" and n0: "fmlookup h a0 = Some n0"
    by (auto split: option.splits)
  define np where "np = moved b (pos_C n0) dx dy"
  define h1 where "h1 = fmupd a \<lparr>pos_C = np, prev_C = None, next_C = Some a0\<rparr> h"
  define h' where "h' = fmupd a0 (n0\<lparr>prev_C := Some a\<rparr>) h1"
  define s' where "s' = s\<lparr>head_C := Some a, len_C := len_C s + 1\<rparr>"
  from fresh n0 have neq: "a \<noteq> a0"
    by auto
  from dl fresh have notin: "a \<notin> set as"
    by (rule dlist_fresh)
  have hdc: "hd (cells h as) = pos_C n0"
    using as n0 by (simp add: cells_def)
  have run: "ds_snake_add_head (Some a) h s b dx dy =
      (case board_put b (y_C np) (x_C np) DS_CHAR_SNAKE_BODY of
         Inl e \<Rightarrow> Inl e | Inr b1 \<Rightarrow> Inr (h', s', b1))"
    using hd n0 dims neq
    by (simp add: ds_snake_add_head_def deref_def np_def h1_def h'_def s'_def Let_def
        split: sum.splits)
  from dl hd have "dlist h None (Some a0) as"
    by simp
  from dlist_push [OF this dist fresh n0]
  have dl': "dlist h' None (Some a) (a # as)"
    by (simp add: h'_def h1_def)
  from len short have "unat (len_C s + 1) = length as + 1"
    by (simp add: unat_word_ariths)
  with dl' dist notin tl ne have chain': "snake_chain h' s' (a # as)"
    by (simp add: snake_chain_def s'_def)
  have cells': "cells h' (a # as) = np # cells h as"
    using neq notin as n0 by (auto simp: cells_def h'_def h1_def)
  have "len_C s' = len_C s + 1"
    by (simp add: s'_def)
  with run chain' cells' show ?thesis
    unfolding hdc np_def [symmetric] by blast
qed


lemma split_last_two:
  assumes "2 \<le> length xs"
  shows "\<exists>bs q t. xs = bs @ [q, t]"
proof -
  from assms have "xs \<noteq> []" by auto
  then have xs: "xs = butlast xs @ [last xs]" by simp
  from assms have "butlast xs \<noteq> []" by (cases xs) auto
  then have "butlast xs = butlast (butlast xs) @ [last (butlast xs)]" by simp
  with xs have "xs = butlast (butlast xs) @ [last (butlast xs), last xs]"
    by (metis append.assoc append_Cons append_Nil)
  then show ?thesis by blast
qed

lemma cut_tail_short:
  assumes "snake_chain h s as" "length as \<le> 15"
  shows "ds_snake_cut_tail h s b = Inr (h, s, b)"
proof -
  from assms have "unat (len_C s) \<le> 15"
    by (simp add: snake_chain_def)
  then have "\<not> DS_FULL_GROWN_LEN < len_C s"
    by (simp add: DS_FULL_GROWN_LEN_def word_less_nat_alt)
  then show ?thesis
    by (simp add: ds_snake_cut_tail_def)
qed

lemma cut_tail_chain:
  assumes chain: "snake_chain h s as" and long: "15 < length as"
  shows "\<exists>h' s'.
           (\<forall>b. ds_snake_cut_tail h s b =
             (case board_put b (y_C (last (cells h as))) (x_C (last (cells h as))) DS_CHAR_FLOOR of
                Inl e \<Rightarrow> Inl e
              | Inr b1 \<Rightarrow> Inr (h', s', b1))) \<and>
           snake_chain h' s' (butlast as) \<and>
           cells h' (butlast as) = butlast (cells h as) \<and>
           len_C s' = len_C s - 1 \<and>
           fmlookup h' (last as) = None"
proof -
  from chain have dist: "distinct as"
    and dl: "dlist h None (head_C s) as" and tl: "tail_C s = Some (last as)"
    and len: "unat (len_C s) = length as"
    by (simp_all add: snake_chain_def)
  from long have "2 \<le> length as" by simp
  from split_last_two [OF this] obtain bs q t where as: "as = bs @ [q, t]"
    by blast
  from dlist_last_two [OF dl [unfolded as]] obtain nq nt
    where nq: "fmlookup h q = Some nq" "next_C nq = Some t"
      and nt: "fmlookup h t = Some nt" "prev_C nt = Some q" "next_C nt = None"
    by blast
  from dist as have qt: "q \<noteq> t" and qbs: "q \<notin> set bs" and tbs: "t \<notin> set bs"
    by auto
  define h1 where "h1 = fmupd q (nq\<lparr>next_C := None\<rparr>) h"
  define h' where "h' = fmdrop t h1"
  define s' where "s' = s\<lparr>tail_C := Some q, len_C := len_C s - 1\<rparr>"
  from len long have full: "DS_FULL_GROWN_LEN < len_C s"
    by (simp add: DS_FULL_GROWN_LEN_def word_less_nat_alt)
  have lastc: "last (cells h as) = pos_C nt"
    using as nt by (simp add: cells_def)
  have run: "\<forall>b. ds_snake_cut_tail h s b =
      (case board_put b (y_C (pos_C nt)) (x_C (pos_C nt)) DS_CHAR_FLOOR of
         Inl e \<Rightarrow> Inl e | Inr b1 \<Rightarrow> Inr (h', s', b1))"
    using full tl as nq nt qt
    by (simp add: ds_snake_cut_tail_def deref_def h1_def h'_def s'_def Let_def
        split: sum.splits)
  from dlist_cut_last [OF dl [unfolded as] dist [unfolded as] nq(1)]
  have dl': "dlist h' None (head_C s) (bs @ [q])"
    by (simp add: h'_def h1_def)
  from len long have "len_C s \<noteq> 0"
    by auto
  with len have "unat (len_C s - 1) = length as - 1"
    by (simp add: unat_minus_one)
  with dl' dist as have chain': "snake_chain h' s' (butlast as)"
    by (simp add: snake_chain_def s'_def butlast_append)
  have cells': "cells h' (butlast as) = butlast (cells h as)"
    using as qt qbs tbs nq by (auto simp: cells_def h'_def h1_def butlast_append map_butlast)
  have gone: "fmlookup h' (last as) = None"
    using as by (simp add: h'_def)
  have "len_C s' = len_C s - 1"
    by (simp add: s'_def)
  with run chain' cells' gone show ?thesis
    unfolding lastc by blast
qed


section \<open>Running \<^verbatim>\<open>ds_snake_move\<close>\<close>

lemma snake_move_invalid:
  "\<not> valid_direction dx dy \<Longrightarrow> ds_snake_move m h (Some s) (Some b) dx dy = Inl AssertionFailed"
  by (auto simp: ds_snake_move_def valid_direction_def)

lemma snake_move_valid:
  "valid_direction dx dy \<Longrightarrow>
     ds_snake_move m h (Some s) (Some b) dx dy =
       (case ds_snake_add_head m h s b dx dy of
          Inl e \<Rightarrow> Inl e
        | Inr (h1, s1, b1) \<Rightarrow> ds_snake_cut_tail h1 s1 b1)"
  by (auto simp: ds_snake_move_def valid_direction_def)

lemma add_head_no_board:
  "width_C b = 0 \<or> height_C b = 0 \<Longrightarrow> \<exists>e. ds_snake_add_head m h s b dx dy = Inl e"
  by (auto simp: ds_snake_add_head_def split: option.splits sum.splits)

lemma snake_move_grow_eq:
  assumes chain: "snake_chain h s as" and fresh: "fmlookup h a = None"
    and dims: "width_C b \<noteq> 0" "height_C b \<noteq> 0" and short: "length as < 15"
    and valid: "valid_direction dx dy"
  shows "\<exists>h' s'.
           ds_snake_move (Some a) h (Some s) (Some b) dx dy =
             (case board_put b (y_C (moved b (hd (cells h as)) dx dy))
                     (x_C (moved b (hd (cells h as)) dx dy)) DS_CHAR_SNAKE_BODY of
                Inl e \<Rightarrow> Inl e
              | Inr b1 \<Rightarrow> Inr (h', s', b1)) \<and>
           snake_chain h' s' (a # as) \<and>
           cells h' (a # as) = moved b (hd (cells h as)) dx dy # cells h as \<and>
           len_C s' = len_C s + 1"
proof -
  from short have "length as \<le> 15" by simp
  from add_head_chain [OF chain fresh dims this, of dx dy]
  obtain h' s' where add: "ds_snake_add_head (Some a) h s b dx dy =
             (case board_put b (y_C (moved b (hd (cells h as)) dx dy))
                     (x_C (moved b (hd (cells h as)) dx dy)) DS_CHAR_SNAKE_BODY of
                Inl e \<Rightarrow> Inl e
              | Inr b1 \<Rightarrow> Inr (h', s', b1))"
    and chain': "snake_chain h' s' (a # as)"
    and rest: "cells h' (a # as) = moved b (hd (cells h as)) dx dy # cells h as"
      "len_C s' = len_C s + 1"
    by blast
  from short have "length (a # as) \<le> 15" by simp
  from cut_tail_short [OF chain' this]
  have "ds_snake_move (Some a) h (Some s) (Some b) dx dy =
             (case board_put b (y_C (moved b (hd (cells h as)) dx dy))
                     (x_C (moved b (hd (cells h as)) dx dy)) DS_CHAR_SNAKE_BODY of
                Inl e \<Rightarrow> Inl e
              | Inr b1 \<Rightarrow> Inr (h', s', b1))"
    by (simp add: snake_move_valid [OF valid] add split: sum.splits)
  with chain' rest show ?thesis by blast
qed

lemma snake_move_full_eq:
  assumes chain: "snake_chain h s as" and fresh: "fmlookup h a = None"
    and dims: "width_C b \<noteq> 0" "height_C b \<noteq> 0" and full: "length as = 15"
    and valid: "valid_direction dx dy"
  shows "\<exists>h' s'.
           ds_snake_move (Some a) h (Some s) (Some b) dx dy =
             (case board_put b (y_C (moved b (hd (cells h as)) dx dy))
                     (x_C (moved b (hd (cells h as)) dx dy)) DS_CHAR_SNAKE_BODY of
                Inl e \<Rightarrow> Inl e
              | Inr b1 \<Rightarrow>
                 (case board_put b1 (y_C (last (cells h as))) (x_C (last (cells h as)))
                         DS_CHAR_FLOOR of
                    Inl e \<Rightarrow> Inl e
                  | Inr b2 \<Rightarrow> Inr (h', s', b2))) \<and>
           snake_chain h' s' (a # butlast as) \<and>
           cells h' (a # butlast as) = moved b (hd (cells h as)) dx dy # butlast (cells h as) \<and>
           len_C s' = len_C s \<and>
           fmlookup h' (last as) = None"
proof -
  from full have ne: "as \<noteq> []" by auto
  from full have "length as \<le> 15" by simp
  from add_head_chain [OF chain fresh dims this, of dx dy]
  obtain h1 s1 where add: "ds_snake_add_head (Some a) h s b dx dy =
             (case board_put b (y_C (moved b (hd (cells h as)) dx dy))
                     (x_C (moved b (hd (cells h as)) dx dy)) DS_CHAR_SNAKE_BODY of
                Inl e \<Rightarrow> Inl e
              | Inr b1 \<Rightarrow> Inr (h1, s1, b1))"
    and chain1: "snake_chain h1 s1 (a # as)"
    and cells1: "cells h1 (a # as) = moved b (hd (cells h as)) dx dy # cells h as"
    and len1: "len_C s1 = len_C s + 1"
    by blast
  from full have "15 < length (a # as)" by simp
  from cut_tail_chain [OF chain1 this]
  obtain h' s' where cut: "\<forall>b1. ds_snake_cut_tail h1 s1 b1 =
             (case board_put b1 (y_C (last (cells h1 (a # as)))) (x_C (last (cells h1 (a # as))))
                     DS_CHAR_FLOOR of
                Inl e \<Rightarrow> Inl e
              | Inr b2 \<Rightarrow> Inr (h', s', b2))"
    and chain': "snake_chain h' s' (butlast (a # as))"
    and cells': "cells h' (butlast (a # as)) = butlast (cells h1 (a # as))"
    and len': "len_C s' = len_C s1 - 1"
    and gone: "fmlookup h' (last (a # as)) = None"
    by blast
  from ne have lastc: "last (cells h1 (a # as)) = last (cells h as)"
    unfolding cells1 by (simp add: cells_def)
  have run: "ds_snake_move (Some a) h (Some s) (Some b) dx dy =
             (case board_put b (y_C (moved b (hd (cells h as)) dx dy))
                     (x_C (moved b (hd (cells h as)) dx dy)) DS_CHAR_SNAKE_BODY of
                Inl e \<Rightarrow> Inl e
              | Inr b1 \<Rightarrow>
                 (case board_put b1 (y_C (last (cells h as))) (x_C (last (cells h as)))
                         DS_CHAR_FLOOR of
                    Inl e \<Rightarrow> Inl e
                  | Inr b2 \<Rightarrow> Inr (h', s', b2)))"
    using cut by (simp add: snake_move_valid [OF valid] add lastc split: sum.splits)
  from chain' ne have c1: "snake_chain h' s' (a # butlast as)"
    by simp
  from cells' ne have c2: "cells h' (a # butlast as) =
      moved b (hd (cells h as)) dx dy # butlast (cells h as)"
    unfolding cells1 by (simp add: cells_def)
  from len' len1 have c3: "len_C s' = len_C s"
    by simp
  from gone ne have c4: "fmlookup h' (last as) = None"
    by simp
  from run c1 c2 c3 c4 show ?thesis
    by blast
qed

lemma snake_move_preserves_chain:
  assumes chain: "snake_chain h s as" and fresh: "fmlookup h a = None"
    and short: "length as \<le> 15"
    and ret: "ds_snake_move (Some a) h (Some s) (Some b) dx dy = Inr (h', s', b')"
  shows "snake_chain h' s' (if length as < 15 then a # as else a # butlast as)"
proof -
  have valid: "valid_direction dx dy"
    using ret snake_move_invalid [of dx dy "Some a" h s b] by auto
  have dims: "width_C b \<noteq> 0" "height_C b \<noteq> 0"
    using ret add_head_no_board [of b "Some a" h s dx dy]
    by (auto simp: snake_move_valid [OF valid])
  show ?thesis
  proof (cases "length as < 15")
    case True
    from snake_move_grow_eq [OF chain fresh dims True valid]
    obtain h1 s1 where eq: "ds_snake_move (Some a) h (Some s) (Some b) dx dy =
             (case board_put b (y_C (moved b (hd (cells h as)) dx dy))
                     (x_C (moved b (hd (cells h as)) dx dy)) DS_CHAR_SNAKE_BODY of
                Inl e \<Rightarrow> Inl e
              | Inr b1 \<Rightarrow> Inr (h1, s1, b1))"
      and chain1: "snake_chain h1 s1 (a # as)"
      by blast
    from eq ret have "h' = h1 \<and> s' = s1"
      by (cases "board_put b (y_C (moved b (hd (cells h as)) dx dy))
                     (x_C (moved b (hd (cells h as)) dx dy)) DS_CHAR_SNAKE_BODY") auto
    with chain1 True show ?thesis
      by simp
  next
    case False
    with short have "length as = 15" by simp
    from snake_move_full_eq [OF chain fresh dims this valid]
    obtain h1 s1 where eq: "ds_snake_move (Some a) h (Some s) (Some b) dx dy =
             (case board_put b (y_C (moved b (hd (cells h as)) dx dy))
                     (x_C (moved b (hd (cells h as)) dx dy)) DS_CHAR_SNAKE_BODY of
                Inl e \<Rightarrow> Inl e
              | Inr b1 \<Rightarrow>
                 (case board_put b1 (y_C (last (cells h as))) (x_C (last (cells h as)))
                         DS_CHAR_FLOOR of
                    Inl e \<Rightarrow> Inl e
                  | Inr b2 \<Rightarrow> Inr (h1, s1, b2)))"
      and chain1: "snake_chain h1 s1 (a # butlast as)"
      by blast
    from eq ret have "h' = h1 \<and> s' = s1"
      by (auto split: sum.splits)
    with chain1 False show ?thesis
      by simp
  qed
qed

lemma board_inv_dims: "board_inv b \<Longrightarrow> width_C b \<noteq> 0 \<and> height_C b \<noteq> 0"
  by (auto simp: board_inv_def)

lemma snake_move_grow:
  assumes chain: "snake_chain h s as" and fresh: "fmlookup h a = None"
    and board: "board_inv b" and short: "length as < 15"
    and valid: "valid_direction dx dy"
  shows "\<exists>h' s'.
           ds_snake_move (Some a) h (Some s) (Some b) dx dy =
             Inr (h', s', b\<lparr>text_C := (text_C b)
                    [cell_index b (moved b (hd (cells h as)) dx dy) := DS_CHAR_SNAKE_BODY]\<rparr>) \<and>
           snake_chain h' s' (a # as) \<and>
           cells h' (a # as) = moved b (hd (cells h as)) dx dy # cells h as \<and>
           len_C s' = len_C s + 1"
proof -
  from board have dims: "width_C b \<noteq> 0" "height_C b \<noteq> 0"
    by (simp_all add: board_inv_dims)
  then have "on_board b (moved b (hd (cells h as)) dx dy)"
    by (rule moved_on_board)
  from board_put_on_board [OF board this]
    snake_move_grow_eq [OF chain fresh dims short valid]
  show ?thesis
    by simp
qed

lemma snake_move_full:
  assumes chain: "snake_chain h s as" and fresh: "fmlookup h a = None"
    and board: "board_inv b" and full: "length as = 15"
    and valid: "valid_direction dx dy" and tail: "on_board b (last (cells h as))"
  shows "\<exists>h' s'.
           ds_snake_move (Some a) h (Some s) (Some b) dx dy =
             Inr (h', s', b\<lparr>text_C := (text_C b)
                    [cell_index b (moved b (hd (cells h as)) dx dy) := DS_CHAR_SNAKE_BODY,
                     cell_index b (last (cells h as)) := DS_CHAR_FLOOR]\<rparr>) \<and>
           snake_chain h' s' (a # butlast as) \<and>
           cells h' (a # butlast as) = moved b (hd (cells h as)) dx dy # butlast (cells h as) \<and>
           len_C s' = len_C s \<and>
           fmlookup h' (last as) = None"
proof -
  define np where "np = moved b (hd (cells h as)) dx dy"
  define b1 where "b1 = b\<lparr>text_C := (text_C b)[cell_index b np := DS_CHAR_SNAKE_BODY]\<rparr>"
  from board have dims: "width_C b \<noteq> 0" "height_C b \<noteq> 0"
    by (simp_all add: board_inv_dims)
  then have "on_board b np"
    unfolding np_def by (rule moved_on_board)
  from board_put_on_board [OF board this]
  have put1: "board_put b (y_C np) (x_C np) DS_CHAR_SNAKE_BODY = Inr b1"
    by (simp add: b1_def)
  from board have "board_inv b1"
    unfolding b1_def by (rule board_inv_text_upd)
  moreover from tail have "on_board b1 (last (cells h as))"
    by (simp add: on_board_def b1_def)
  ultimately have "board_put b1 (y_C (last (cells h as))) (x_C (last (cells h as))) DS_CHAR_FLOOR =
      Inr (b1\<lparr>text_C := (text_C b1)[cell_index b1 (last (cells h as)) := DS_CHAR_FLOOR]\<rparr>)"
    by (rule board_put_on_board)
  then have put2: "board_put b1 (y_C (last (cells h as))) (x_C (last (cells h as))) DS_CHAR_FLOOR =
      Inr (b\<lparr>text_C := (text_C b)[cell_index b np := DS_CHAR_SNAKE_BODY,
                cell_index b (last (cells h as)) := DS_CHAR_FLOOR]\<rparr>)"
    by (simp add: b1_def cell_index_def)
  from snake_move_full_eq [OF chain fresh dims full valid] put1 put2
  show ?thesis
    by (simp add: np_def)
qed


lemma chain_length_less:
  "snake_chain h s as \<Longrightarrow> (len_C s < DS_FULL_GROWN_LEN) = (length as < 15)"
  by (simp add: snake_chain_def DS_FULL_GROWN_LEN_def word_less_nat_alt)

lemma chain_length_full:
  "snake_chain h s as \<Longrightarrow> (len_C s = DS_FULL_GROWN_LEN) = (length as = 15)"
  by (simp add: snake_chain_def DS_FULL_GROWN_LEN_def word_unat_eq_iff)

lemma chain_segments:
  "snake_chain h s as \<Longrightarrow> segments h s = as"
  using dlist_walk [of h None "head_C s" as] by (simp add: snake_chain_def segments_def)

lemma chain_head:
  assumes "snake_chain h s as"
  shows "\<exists>part. deref h (head_C s) = Inr part \<and> head_C s = Some (hd as) \<and>
           prev_C part = None \<and> pos_C part = hd (cells h as)"
proof -
  from assms obtain a rest where "as = a # rest"
    by (cases as) (auto simp: snake_chain_def)
  with assms show ?thesis
    by (auto simp: snake_chain_def deref_def cells_def split: option.splits)
qed

lemma dlist_last:
  "dlist h pv p (as @ [t]) \<Longrightarrow> \<exists>part. fmlookup h t = Some part \<and> next_C part = None"
  by (induction as arbitrary: pv p) (auto split: option.splits)

lemma chain_tail:
  assumes "snake_chain h s as"
  shows "\<exists>part. deref h (tail_C s) = Inr part \<and> tail_C s = Some (last as) \<and>
           next_C part = None \<and> pos_C part = last (cells h as)"
proof -
  from assms have ne: "as \<noteq> []" and dl: "dlist h None (head_C s) as"
    and tl: "tail_C s = Some (last as)"
    by (simp_all add: snake_chain_def)
  from ne have "as = butlast as @ [last as]"
    by simp
  with dl have "dlist h None (head_C s) (butlast as @ [last as])"
    by simp
  from dlist_last [OF this] obtain part
    where "fmlookup h (last as) = Some part" "next_C part = None"
    by blast
  with tl ne show ?thesis
    by (simp add: deref_def cells_def last_map)
qed

lemma cell_index_inject:
  assumes "on_board b p" "on_board b q" "cell_index b p = cell_index b q"
  shows "p = q"
proof -
  let ?w = "unat (width_C b)"
  from assms(1,2) have x: "unat (x_C p) < ?w" "unat (x_C q) < ?w"
    by (simp_all add: on_board_def word_less_nat_alt)
  from assms(3) have eq: "unat (y_C p) * ?w + unat (x_C p) = unat (y_C q) * ?w + unat (x_C q)"
    by (simp add: cell_index_def)
  from arg_cong [OF eq, of "\<lambda>n. n div ?w"] x have "unat (y_C p) = unat (y_C q)"
    by simp
  moreover from arg_cong [OF eq, of "\<lambda>n. n mod ?w"] x have "unat (x_C p) = unat (x_C q)"
    by simp
  ultimately have "x_C p = x_C q \<and> y_C p = y_C q"
    by (simp add: word_unat_eq_iff)
  then show ?thesis
    by simp
qed

lemma board_at_text_upd:
  assumes "board_inv b" "on_board b p"
  shows "board_at (b\<lparr>text_C := t\<rparr>) (x_C p) (y_C p) = t ! cell_index b p"
proof -
  from assms(2) have "unat (y_C p) < unat (height_C b)"
    by (simp add: on_board_def word_less_nat_alt)
  with assms(1) show ?thesis
    by (simp add: board_at_def board_inv_def cell_index_def)
qed


lemma on_board_text_upd [simp]: "on_board (b\<lparr>text_C := t\<rparr>) p = on_board b p"
  by (simp add: on_board_def)

lemma snake_on_board_tail:
  "snake_on_board h as b \<Longrightarrow> as \<noteq> [] \<Longrightarrow> on_board b (last (cells h as))"
  by (simp add: snake_on_board_def list_all_iff cells_def last_map)

lemma snake_on_board_head:
  "snake_on_board h as b \<Longrightarrow> as \<noteq> [] \<Longrightarrow> on_board b (hd (cells h as))"
  by (simp add: snake_on_board_def list_all_iff cells_def hd_map)

lemma on_board_text_upd_fun [simp]: "on_board (b\<lparr>text_C := t\<rparr>) = on_board b"
  by (rule ext) simp

lemma snake_move_ok:
  assumes chain: "snake_chain h s as" and fresh: "fmlookup h a = None"
    and board: "board_inv b" and short: "length as \<le> 15"
    and valid: "valid_direction dx dy" and on: "snake_on_board h as b"
  shows "\<exists>h' s' b' as'.
           ds_snake_move (Some a) h (Some s) (Some b) dx dy = Inr (h', s', b') \<and>
           snake_chain h' s' as' \<and> length as' \<le> 15 \<and>
           hd (cells h' as') = moved b (hd (cells h as)) dx dy \<and>
           board_inv b' \<and> snake_on_board h' as' b' \<and>
           width_C b' = width_C b \<and> height_C b' = height_C b"
proof -
  from chain have ne: "as \<noteq> []"
    by (simp add: snake_chain_def)
  from board have "on_board b (moved b (hd (cells h as)) dx dy)"
    by (simp add: moved_on_board board_inv_dims)
  with on have on': "list_all (on_board b) (moved b (hd (cells h as)) dx dy # cells h as)"
    by (simp add: snake_on_board_def)
  then have on'': "list_all (on_board b) (moved b (hd (cells h as)) dx dy # butlast (cells h as))"
    by (auto simp: list_all_iff dest: in_set_butlastD)
  show ?thesis
  proof (cases "length as < 15")
    case True
    define b' where "b' = b\<lparr>text_C := (text_C b)
                [cell_index b (moved b (hd (cells h as)) dx dy) := DS_CHAR_SNAKE_BODY]\<rparr>"
    from snake_move_grow [OF chain fresh board True valid]
    obtain h' s' where run: "ds_snake_move (Some a) h (Some s) (Some b) dx dy = Inr (h', s', b')"
      and chain': "snake_chain h' s' (a # as)"
      and cells': "cells h' (a # as) = moved b (hd (cells h as)) dx dy # cells h as"
      unfolding b'_def by blast
    from True have "length (a # as) \<le> 15"
      by simp
    moreover from cells' have "hd (cells h' (a # as)) = moved b (hd (cells h as)) dx dy"
      by simp
    moreover from board have "board_inv b'"
      unfolding b'_def by (rule board_inv_text_upd)
    moreover from on' cells' have "snake_on_board h' (a # as) b'"
      by (simp add: snake_on_board_def b'_def)
    moreover have "width_C b' = width_C b \<and> height_C b' = height_C b"
      by (simp add: b'_def)
    ultimately show ?thesis
      using run chain' by blast
  next
    case False
    with short have full: "length as = 15" by simp
    define b' where "b' = b\<lparr>text_C := (text_C b)
                [cell_index b (moved b (hd (cells h as)) dx dy) := DS_CHAR_SNAKE_BODY,
                 cell_index b (last (cells h as)) := DS_CHAR_FLOOR]\<rparr>"
    from snake_move_full [OF chain fresh board full valid snake_on_board_tail [OF on ne]]
    obtain h' s' where run: "ds_snake_move (Some a) h (Some s) (Some b) dx dy = Inr (h', s', b')"
      and chain': "snake_chain h' s' (a # butlast as)"
      and cells': "cells h' (a # butlast as) =
          moved b (hd (cells h as)) dx dy # butlast (cells h as)"
      unfolding b'_def by blast
    from full have "length (a # butlast as) \<le> 15"
      by simp
    moreover from cells' have "hd (cells h' (a # butlast as)) = moved b (hd (cells h as)) dx dy"
      by simp
    moreover from board have "board_inv b'"
      by (simp add: board_inv_def b'_def)
    moreover from on'' cells' have "snake_on_board h' (a # butlast as) b'"
      by (simp add: snake_on_board_def b'_def)
    moreover have "width_C b' = width_C b \<and> height_C b' = height_C b"
      by (simp add: b'_def)
    ultimately show ?thesis
      using run chain' by blast
  qed
qed

lemma moved_uint:
  fixes w x :: "64 word"
  assumes "x < w" "unat w \<le> 2 ^ 63" "d = 0 \<or> d = 1 \<or> d = -1"
  shows "uint ((x + word_of_int d + w) mod w) = (uint x + d + uint w) mod uint w"
proof -
  define X W where "X = uint x" and "W = uint w"
  from assms(1) have xw: "X < W" and x0: "0 \<le> X"
    by (simp_all add: word_less_def X_def W_def)
  from assms(2) have "int (unat w) \<le> 2 ^ 63"
    by (metis of_nat_le_iff of_nat_numeral of_nat_power)
  then have w: "W \<le> 2 ^ 63"
    by (simp add: W_def)
  have "uint (x + word_of_int d + w) = (X + d + W) mod 2 ^ 64"
    by (simp add: uint_word_ariths uint_word_of_int mod_simps X_def W_def)
  then have "uint ((x + word_of_int d + w) mod w) = (X + d + W) mod 2 ^ 64 mod W"
    by (simp add: uint_mod W_def)
  also have "\<dots> = (X + d + W) mod W"
  proof (cases "X + d + W < 2 ^ 64")
    case True
    moreover from xw x0 assms(3) have "0 \<le> X + d + W"
      by linarith
    ultimately have "(X + d + W) mod 2 ^ 64 = X + d + W"
      by (rule mod_pos_pos_trivial [rotated])
    then show ?thesis
      by simp
  next
    case False
    moreover have p: "(2::int) ^ 64 = 2 * 2 ^ 63"
      by simp
    ultimately have W: "W = 2 ^ 63" and S: "X + d + W = 2 ^ 64"
      using xw w assms(3) by linarith+
    from S have "(X + d + W) mod 2 ^ 64 = 0"
      by (simp only: mod_self)
    moreover from S W p have "X + d + W = 2 * W"
      by simp
    then have "(X + d + W) mod W = 0"
      by simp
    ultimately show ?thesis
      by simp
  qed
  finally show ?thesis
    by (simp add: X_def W_def)
qed

lemma word_pred_less: "(w::64 word) \<noteq> 0 \<Longrightarrow> w - 1 < w"
  by (simp add: word_less_nat_alt unat_minus_one unat_gt_0)

lemma wrap_left: "(w::64 word) \<noteq> 0 \<Longrightarrow> (0 + word_of_int (-1) + w) mod w = w - 1"
  using word_pred_less [of w] by (simp add: mod_word_less)

lemma wrap_right:
  fixes w :: "64 word"
  assumes "w \<noteq> 0" "unat w \<le> 2 ^ 63"
  shows "(w - 1 + word_of_int 1 + w) mod w = 0"
proof -
  from assms(1) have "w - 1 < w" by (rule word_pred_less)
  from moved_uint [OF this assms(2), of 1]
  have "uint ((w - 1 + word_of_int 1 + w) mod w) = (uint (w - 1) + 1 + uint w) mod uint w"
    by simp
  also have "uint (w - 1) = uint w - uint (1 :: 64 word)"
  proof (rule uint_sub_lem [THEN iffD1])
    from assms(1) have "uint w \<noteq> 0"
      by (simp add: uint_0_iff)
    moreover have "0 \<le> uint w"
      by simp
    ultimately have "0 < uint w"
      by linarith
    then show "uint (1 :: 64 word) \<le> uint w"
      by simp
  qed
  finally have "uint ((w - 1 + word_of_int 1 + w) mod w) = (uint w + uint w) mod uint w"
    by simp
  then have "uint ((w - 1 + word_of_int 1 + w) mod w) = 0"
    by simp
  then show ?thesis
    by (simp add: word_uint_eq_iff)
qed

lemma snake_create_chain:
  assumes "ds_snake_create m_snake (Some a) h0 x y = Inr (h, s)"
  shows "snake_chain h s [a]"
  using assms by (auto simp: ds_snake_create_def snake_chain_def split: option.splits)

lemma reachable_chain:
  "reachable st \<Longrightarrow> \<exists>as. snake_chain (fst st) (fst (snd st)) as \<and> length as \<le> 15"
proof (induction rule: reachable.induct)
  case (create h0 a m_snake x y h s b)
  from snake_create_chain [OF create(2)] show ?case
    by (auto intro: exI [of _ "[a]"])
next
  case (move h s b a dx dy h' s' b')
  then obtain as where chain: "snake_chain h s as" and short: "length as \<le> 15"
    by auto
  from snake_move_preserves_chain [OF chain move(2) short move(3)] short
  show ?case
    by (cases "length as < 15") (auto intro: exI [of _ "a # as"] exI [of _ "a # butlast as"])
qed

section \<open>Creating the board\<close>

lemma unat_succ_less: "x < w \<Longrightarrow> unat (x + 1) = Suc (unat x)" for x w :: size_t
proof -
  assume "x < w"
  then have less: "unat x < unat w"
    by (simp add: word_less_nat_alt)
  have "unat w < 2 ^ 64"
    using unsigned_less [of w] by simp
  with less have "unat x + unat (1 :: size_t) < 2 ^ LENGTH(64)"
    by simp
  then show ?thesis
    by (simp add: unat_add_lem [THEN iffD1])
qed

lemma fill_step:
  assumes "n + k \<le> length xs" "0 < k"
  shows "take (Suc n) (xs[n := c]) @ replicate (k - 1) c @ drop (Suc n + (k - 1)) (xs[n := c]) =
         take n xs @ replicate k c @ drop (n + k) xs"
proof -
  from assms have n: "n < length xs"
    by simp
  then have "take (Suc n) (xs[n := c]) = take n xs @ [c]"
    by (simp add: take_Suc_conv_app_nth)
  moreover from assms(2) have "drop (Suc n + (k - 1)) (xs[n := c]) = drop (n + k) xs"
    by simp
  moreover from assms(2) have "replicate k c = c # replicate (k - 1) c"
    by (cases k) simp_all
  ultimately show ?thesis
    by simp
qed

lemma fill_row_ok:
  assumes "unat y < length (array_C b)"
    and "array_C b ! unat y + unat width \<le> length (text_C b)"
    and "x \<le> width"
  shows "fill_row width b y x =
           Inr (b\<lparr>text_C := take (array_C b ! unat y + unat x) (text_C b) @
                            replicate (unat width - unat x) DS_CHAR_FLOOR @
                            drop (array_C b ! unat y + unat width) (text_C b)\<rparr>)"
  using assms
proof (induction width b y x rule: fill_row.induct)
  case (1 width b y x)
  let ?off = "array_C b ! unat y"
  show ?case
  proof (cases "x < width")
    case True
    then have ux: "unat x < unat width"
      by (simp add: word_less_nat_alt)
    let ?b' = "b\<lparr>text_C := (text_C b)[?off + unat x := DS_CHAR_FLOOR]\<rparr>"
    from ux "1.prems" have put: "board_put b y x DS_CHAR_FLOOR = Inr ?b'"
      by (simp add: board_put_def)
    from True have succ: "unat (x + 1) = Suc (unat x)" and le: "x + 1 \<le> width"
      by (simp_all add: unat_succ_less inc_le)
    from "1.IH" [OF True put] "1.prems" le
    have "fill_row width ?b' y (x + 1) =
           Inr (?b'\<lparr>text_C := take (?off + unat (x + 1)) (text_C ?b') @
                            replicate (unat width - unat (x + 1)) DS_CHAR_FLOOR @
                            drop (?off + unat width) (text_C ?b')\<rparr>)"
      by simp
    moreover
    from fill_step [of "?off + unat x" "unat width - unat x" "text_C b" DS_CHAR_FLOOR] ux "1.prems"
    have "take (?off + unat (x + 1)) (text_C ?b') @
            replicate (unat width - unat (x + 1)) DS_CHAR_FLOOR @
            drop (?off + unat width) (text_C ?b') =
          take (?off + unat x) (text_C b) @ replicate (unat width - unat x) DS_CHAR_FLOOR @
            drop (?off + unat width) (text_C b)"
      by (simp add: succ)
    ultimately show ?thesis
      using True put by (subst fill_row.simps) simp
  next
    case False
    with "1.prems" have "x = width"
      by simp
    with False show ?thesis
      by (subst fill_row.simps) simp
  qed
qed


lemma fill_rows_step:
  assumes "n + w \<le> m" "m \<le> length xs"
  shows "take (n + w) (take n xs @ replicate w c @ drop (n + w) xs) @ replicate (m - (n + w)) c @
           drop m (take n xs @ replicate w c @ drop (n + w) xs) =
         take n xs @ replicate (m - n) c @ drop m xs"
proof -
  from assms have nle: "n \<le> length xs" "min (length xs) n = n"
    by simp_all
  have A: "take (n + w) (take n xs @ replicate w c @ drop (n + w) xs) = take n xs @ replicate w c"
    using nle by simp
  have B: "drop m (take n xs @ replicate w c @ drop (n + w) xs) = drop m xs"
    using nle assms by simp
  from assms(1) have C: "replicate w c @ replicate (m - (n + w)) c = replicate (m - n) c"
    by (simp add: replicate_add [symmetric])
  show ?thesis
    unfolding A B using C by (metis append.assoc)
qed

lemma fill_rows_ok:
  assumes "unat width * unat height < 2 ^ 64"
    and "length (array_C b) = unat height"
    and "unat height * unat width \<le> length (text_C b)"
    and "y \<le> height"
  shows "fill_rows width height b y =
           Inr (b\<lparr>array_C := take (unat y) (array_C b) @
                             map (\<lambda>j. j * unat width) [unat y..<unat height],
                  text_C := take (unat y * unat width) (text_C b) @
                            replicate (unat height * unat width - unat y * unat width) DS_CHAR_FLOOR @
                            drop (unat height * unat width) (text_C b)\<rparr>)"
  using assms
proof (induction width height b y rule: fill_rows.induct)
  case (1 width height b y)
  let ?w = "unat width" and ?h = "unat height" and ?y = "unat y"
  show ?case
  proof (cases "y < height")
    case True
    then have uy: "?y < ?h"
      by (simp add: word_less_nat_alt)
    then have "Suc ?y * ?w \<le> ?h * ?w"
      by (intro mult_le_mono1) simp
    then have row: "?y * ?w + ?w \<le> ?h * ?w"
      by simp
    with "1.prems"(1) have "unat y * unat width < 2 ^ LENGTH(64)"
      by (simp add: mult.commute)
    then have off: "unat (y * width) = ?y * ?w"
      by (simp add: unat_mult_lem [THEN iffD1])
    let ?b1 = "b\<lparr>array_C := (array_C b)[?y := unat (y * width)]\<rparr>"
    let ?t2 = "take (?y * ?w) (text_C b) @ replicate ?w DS_CHAR_FLOOR @ drop (?y * ?w + ?w) (text_C b)"
    let ?b2 = "?b1\<lparr>text_C := ?t2\<rparr>"
    from uy "1.prems"(2) have inb: "?y < length (array_C b)"
      by simp
    have "fill_row width ?b1 y 0 = Inr ?b2"
      using fill_row_ok [of y ?b1 width 0] inb row "1.prems"(3) off by simp
    then have row_done: "fill_row width ?b1 y 0 = Inr ?b2" .
    from True have succ: "unat (y + 1) = Suc ?y" and le: "y + 1 \<le> height"
      by (simp_all add: unat_succ_less inc_le)
    from row "1.prems"(3) have len2: "length ?t2 = length (text_C b)"
      by simp
    from "1.IH" [OF True inb row_done] "1.prems" le len2
    have rest: "fill_rows width height ?b2 (y + 1) =
           Inr (?b2\<lparr>array_C := take (unat (y + 1)) (array_C ?b2) @
                             map (\<lambda>j. j * ?w) [unat (y + 1)..<?h],
                  text_C := take (unat (y + 1) * ?w) (text_C ?b2) @
                            replicate (?h * ?w - unat (y + 1) * ?w) DS_CHAR_FLOOR @
                            drop (?h * ?w) (text_C ?b2)\<rparr>)"
      by simp
    have arr: "take (Suc ?y) ((array_C b)[?y := ?y * ?w]) @ map (\<lambda>j. j * ?w) [Suc ?y..<?h] =
        take ?y (array_C b) @ map (\<lambda>j. j * ?w) [?y..<?h]"
      using inb uy by (simp add: take_Suc_conv_app_nth upt_conv_Cons)
    from fill_rows_step [OF row "1.prems"(3), of DS_CHAR_FLOOR]
    have filled: "take (Suc ?y * ?w) ?t2 @ replicate (?h * ?w - Suc ?y * ?w) DS_CHAR_FLOOR @
          drop (?h * ?w) ?t2 =
        take (?y * ?w) (text_C b) @ replicate (?h * ?w - ?y * ?w) DS_CHAR_FLOOR @
          drop (?h * ?w) (text_C b)"
      by (simp add: add.commute)
    show ?thesis
      using True inb row_done rest arr filled
      by (subst fill_rows.simps) (simp add: succ off)
  next
    case False
    with "1.prems" have "y = height"
      by simp
    with False "1.prems" show ?thesis
      by (subst fill_rows.simps) simp
  qed
qed


lemma length_help_str: "length help_str = 32"
  by (simp add: help_str_def)

lemma drop_last_upd: "length xs = n + 1 \<Longrightarrow> drop n (xs[n := c]) = [c]"
  by (simp add: upd_conv_take_nth_drop)

lemma ds_board_create_ok:
  assumes "0 < width" and "0 < height"
    and "unat width * unat height + 1 < 2 ^ 64" and "8 * unat height < 2 ^ 64"
  shows "ds_board_create (Some a) (Some text_block) (Some array_block) width height =
           Inr \<lparr>text_C = take (unat width * unat height) help_str @
                         replicate (unat width * unat height - length help_str) DS_CHAR_FLOOR @ [NUL],
                array_C = map (\<lambda>y. y * unat width) [0..<unat height],
                height_C = height, width_C = width\<rparr>"
proof -
  let ?w = "unat width" and ?h = "unat height"
  let ?n = "?w * ?h"
  from assms(3) have "unat width * unat height < 2 ^ LENGTH(64)"
    by simp
  then have len: "unat (width * height) = ?n"
    by (simp add: unat_mult_lem [THEN iffD1])
  from assms(3) len have "unat (width * height) + unat (1 :: size_t) < 2 ^ LENGTH(64)"
    by simp
  then have len1: "unat (width * height + 1) = ?n + 1"
    using len by (simp add: unat_add_lem [THEN iffD1])
  from assms(4) have "unat (8 :: size_t) * unat height < 2 ^ LENGTH(64)"
    by simp
  then have "unat (8 * height) = 8 * ?h"
    by (simp add: unat_mult_lem [THEN iffD1])
  then have slots: "unat (8 * height) div 8 = ?h"
    by simp
  let ?t1 = "(map text_block [0..<?n + 1])[?n := NUL]"
  let ?b0 = "\<lparr>text_C = ?t1, array_C = map array_block [0..<?h],
              height_C = height, width_C = width\<rparr>"
  have "fill_rows width height ?b0 0 =
      Inr (?b0\<lparr>array_C := take (unat (0 :: size_t)) (array_C ?b0) @
                             map (\<lambda>j. j * ?w) [unat (0 :: size_t)..<?h],
                  text_C := take (unat (0 :: size_t) * ?w) (text_C ?b0) @
                            replicate (?h * ?w - unat (0 :: size_t) * ?w) DS_CHAR_FLOOR @
                            drop (?h * ?w) (text_C ?b0)\<rparr>)"
    using assms(3) by (intro fill_rows_ok) (simp_all add: mult.commute)
  moreover have "drop ?n ?t1 = [NUL]"
    by (rule drop_last_upd) simp
  then have "drop (?h * ?w) ?t1 = [NUL]"
    by (simp only: mult.commute)
  ultimately have filled: "fill_rows width height ?b0 0 =
      Inr \<lparr>text_C = replicate ?n DS_CHAR_FLOOR @ [NUL], array_C = map (\<lambda>j. j * ?w) [0..<?h],
           height_C = height, width_C = width\<rparr>"
    by (simp add: mult.commute)
  let ?k = "DS_MIN (word_of_nat (length help_str)) (width * height)"
  have k: "unat ?k = min 32 ?n"
    using len by (auto simp: DS_MIN_def length_help_str word_less_nat_alt)
  then have "strncpy (replicate ?n DS_CHAR_FLOOR @ [NUL]) help_str ?k =
      Inr (take (min 32 ?n) help_str @ replicate (?n - min 32 ?n) DS_CHAR_FLOOR @ [NUL])"
    by (simp add: strncpy_def length_help_str)
  also have "take (min 32 ?n) help_str = take ?n help_str"
    by (simp add: length_help_str min_def)
  also have "?n - min 32 ?n = ?n - length help_str"
    by (simp add: length_help_str)
  finally have copied: "strncpy (replicate ?n DS_CHAR_FLOOR @ [NUL]) help_str ?k =
      Inr (take ?n help_str @ replicate (?n - length help_str) DS_CHAR_FLOOR @ [NUL])" .
  show ?thesis
    using assms(1,2) len len1 slots filled copied
    by (simp add: ds_board_create_def Let_def)
qed

lemma board_create_inv:
  assumes "0 < width" "0 < height"
  shows "board_inv \<lparr>text_C = take (unat width * unat height) help_str @
                         replicate (unat width * unat height - length help_str) DS_CHAR_FLOOR @ [NUL],
                array_C = map (\<lambda>y. y * unat width) [0..<unat height],
                height_C = height, width_C = width\<rparr>"
  using assms by (simp add: board_inv_def length_help_str)

lemma grid_nth:
  assumes "i < n"
  shows "(take n hs @ replicate (n - length hs) c) ! i = (if i < length hs then hs ! i else c)"
proof (cases "i < length hs")
  case True
  with assms show ?thesis
    by (simp add: nth_append)
next
  case False
  with assms have "min (length hs) n = length hs" "i - length hs < n - length hs"
    by simp_all
  with False show ?thesis
    by (simp add: nth_append)
qed

section \<open>The example states\<close>

lemma column_heap_lookup:
  "fmlookup column_heap k = (if 1 \<le> k \<and> k < 16 then Some (column_part k) else None)"
  by (simp add: column_heap_def fmlookup_of_list map_of_map_restrict restrict_map_def)

lemma column_chain_ok: "snake_chain column_heap column_snake column_chain"
  by (simp add: snake_chain_def column_chain_def column_snake_def column_heap_lookup column_part_def)

lemma column_board_ok: "board_inv column_board"
  by (simp add: board_inv_def column_board_def length_help_str)

lemma terminal_3x15:
  "ds_board_create (Some mb) (Some text_block) (Some array_block) 3 15 =
     Inr \<lparr>text_C = help_str @ replicate 13 DS_CHAR_FLOOR @ [NUL],
          array_C = map (\<lambda>y. y * 3) [0..<15], height_C = 15, width_C = 3\<rparr>"
  using ds_board_create_ok [of 3 15 mb text_block array_block]
  by (simp add: length_help_str)

lemma column_start_result: "column_start = Inr (column_heap, column_snake, column_board)"
proof -
  have "\<exists>h. column_start = Inr (h, column_snake, column_board) \<and>
      (\<forall>k. fmlookup h k = fmlookup column_heap k)"
    apply (simp add: column_start_def terminal_3x15 ds_snake_create_def ds_board_put_snake_def
        signed_divide_int_def)
    apply (subst ds_board_put_snake_loop.simps)
    apply (simp add: board_put_def)
    apply (subst ds_board_put_snake_loop.simps)
    apply (simp add: board_put_def upt_rec_numeral ds_snake_move_def
        ds_snake_add_head_def ds_snake_cut_tail_def deref_def moved_def column_snake_def
        DS_FULL_GROWN_LEN_def length_help_str Let_def column_heap_lookup column_part_def)
    apply (simp add: column_board_def length_help_str help_str_def upt_rec_numeral)
    apply (intro allI conjI impI)
     apply simp
    apply arith
    done
  then obtain h where "column_start = Inr (h, column_snake, column_board)"
    and "\<forall>k. fmlookup h k = fmlookup column_heap k"
    by blast
  moreover from this(2) have "h = column_heap"
    by (intro fmap_ext) simp
  ultimately show ?thesis
    by simp
qed

lemma column_cells:
  "cells column_heap column_chain =
     map (\<lambda>y. \<lparr>x_C = 1, y_C = y\<rparr>) [8, 9, 10, 11, 12, 13, 14, 0, 1, 2, 3, 4, 5, 6, 7]"
  by (simp add: cells_def column_chain_def column_heap_lookup column_part_def)

lemma column_on_board: "snake_on_board column_heap column_chain column_board"
  by (simp add: snake_on_board_def column_cells on_board_def column_board_def)

lemma column_facts:
  "len_C column_snake = DS_FULL_GROWN_LEN" "fmlookup column_heap 16 = None"
  "hd (cells column_heap column_chain) = \<lparr>x_C = 1, y_C = 8\<rparr>"
  "last (cells column_heap column_chain) = \<lparr>x_C = 1, y_C = 7\<rparr>"
  by (simp_all add: column_snake_def DS_FULL_GROWN_LEN_def column_heap_lookup column_cells)

lemma corner_chain_ok: "snake_chain corner_heap corner_snake [2]"
  by (simp add: snake_chain_def corner_heap_def corner_snake_def)

lemma corner_board_ok: "board_inv corner_board"
  by (simp add: board_inv_def corner_board_def)

lemma corner_cells: "cells corner_heap [2] = [\<lparr>x_C = 0, y_C = 0\<rparr>]"
  by (simp add: cells_def corner_heap_def)

lemma corner_on_board: "snake_on_board corner_heap [2] corner_board"
  by (simp add: snake_on_board_def corner_cells on_board_def corner_board_def)

section \<open>Moving the snake\<close>

text \<open>
  The statements below are about a snake whose parts form a chain in the heap
  (\<open>snake_chain\<close>), a board that is a grid (\<open>board_inv\<close>), and a block returned by
  \<^verbatim>\<open>malloc\<close> that was not allocated before. Each says that the call returns, and
  what it returns.
\<close>

text \<open>
  Claim C2. For a snake of fewer than 15 parts and a valid direction, one call of
  \<^verbatim>\<open>ds_snake_move\<close> returns with \<^verbatim>\<open>len\<close> larger by exactly 1; no part is removed:
  the chain is the new part followed by all the old ones, the tail pointer and the
  positions of the old parts are unchanged; the board differs only in the cell of the
  new head, which holds the snake body, so no cell has been set to the floor character.
\<close>

theorem snake_move_grows:
  assumes "snake_chain h s as" and "len_C s < DS_FULL_GROWN_LEN"
    and "fmlookup h a = None" and "board_inv b" and "valid_direction dx dy"
  shows "\<exists>h' s' b'.
           ds_snake_move (Some a) h (Some s) (Some b) dx dy = Inr (h', s', b') \<and>
           unat (len_C s') = unat (len_C s) + 1 \<and>
           snake_chain h' s' (a # as) \<and> tail_C s' = tail_C s \<and> cells h' as = cells h as \<and>
           b' = b\<lparr>text_C := (text_C b)
                  [cell_index b (moved b (hd (cells h as)) dx dy) := DS_CHAR_SNAKE_BODY]\<rparr> \<and>
           (\<forall>i. text_C b' ! i = DS_CHAR_FLOOR \<longrightarrow> text_C b ! i = DS_CHAR_FLOOR)"
proof -
  let ?np = "moved b (hd (cells h as)) dx dy"
  let ?b' = "b\<lparr>text_C := (text_C b)[cell_index b ?np := DS_CHAR_SNAKE_BODY]\<rparr>"
  from assms(1,2) have short: "length as < 15"
    by (simp add: chain_length_less)
  from snake_move_grow [OF assms(1,3,4) short assms(5)]
  obtain h' s' where run: "ds_snake_move (Some a) h (Some s) (Some b) dx dy = Inr (h', s', ?b')"
    and chain': "snake_chain h' s' (a # as)"
    and cells': "cells h' (a # as) = ?np # cells h as"
    by blast
  from assms(1) chain' have len: "unat (len_C s') = unat (len_C s) + 1"
    and tail: "tail_C s' = tail_C s"
    by (simp_all add: snake_chain_def)
  from cells' have old: "cells h' as = cells h as"
    by (simp add: cells_def)
  from assms(4) have "on_board b ?np"
    by (simp add: moved_on_board board_inv_dims)
  from cell_index_less [OF assms(4) this] assms(4)
  have "cell_index b ?np < length (text_C b)"
    by (simp add: board_inv_def)
  then have "\<forall>i. text_C ?b' ! i = DS_CHAR_FLOOR \<longrightarrow> text_C b ! i = DS_CHAR_FLOOR"
    by (auto simp: nth_list_update DS_CHAR_FLOOR_def DS_CHAR_SNAKE_BODY_def)
  with run len chain' tail old show ?thesis
    by blast
qed

theorem snake_move_grows_witness:
  "snake_chain corner_heap corner_snake [2] \<and> len_C corner_snake < DS_FULL_GROWN_LEN \<and>
   fmlookup corner_heap 3 = None \<and> board_inv corner_board \<and> valid_direction (-1) 0 \<and>
   (\<exists>h' s' b'.
      ds_snake_move (Some 3) corner_heap (Some corner_snake) (Some corner_board) (-1) 0 =
        Inr (h', s', b') \<and>
      unat (len_C s') = 2 \<and> snake_chain h' s' [3, 2] \<and>
      b' = corner_board\<lparr>text_C := (text_C corner_board)[3 := DS_CHAR_SNAKE_BODY]\<rparr>)"
proof -
  have len: "len_C corner_snake < DS_FULL_GROWN_LEN"
    by (simp add: corner_snake_def DS_FULL_GROWN_LEN_def)
  have fresh: "fmlookup corner_heap 3 = None"
    by (simp add: corner_heap_def)
  have valid: "valid_direction (-1) 0"
    by (simp add: valid_direction_def)
  have idx: "cell_index corner_board (moved corner_board (hd (cells corner_heap [2])) (-1) 0) = 3"
    by (simp add: corner_cells cell_index_def moved_def corner_board_def)
  from snake_move_grows [OF corner_chain_ok len fresh corner_board_ok valid]
  obtain h' s' b' where
    run: "ds_snake_move (Some 3) corner_heap (Some corner_snake) (Some corner_board) (-1) 0 =
        Inr (h', s', b')"
    and grown: "unat (len_C s') = unat (len_C corner_snake) + 1"
    and chain: "snake_chain h' s' [3, 2]"
    and board: "b' = corner_board\<lparr>text_C := (text_C corner_board)
        [cell_index corner_board (moved corner_board (hd (cells corner_heap [2])) (-1) 0) :=
           DS_CHAR_SNAKE_BODY]\<rparr>"
    by blast
  from grown have "unat (len_C s') = 2"
    by (simp add: corner_snake_def)
  with run chain board idx corner_chain_ok len fresh corner_board_ok valid show ?thesis
    by simp
qed

text \<open>
  Claim C1, as amended. For a full-grown snake (15 parts) on the board and a valid
  direction, one call of \<^verbatim>\<open>ds_snake_move\<close> returns with \<^verbatim>\<open>len\<close> still 15; exactly one
  part is added at the head and exactly the last part is removed and freed; the board
  differs from the old one by the snake body written to the cell of the new head and
  then the floor written to the cell of the removed tail. So after the call the cell
  of the removed tail is floor, and the cell of the new head is snake body unless the
  new head is at the position of the removed tail.
\<close>

theorem snake_move_full_grown:
  assumes "snake_chain h s as" and "len_C s = DS_FULL_GROWN_LEN"
    and "fmlookup h a = None" and "board_inv b" and "snake_on_board h as b"
    and "valid_direction dx dy"
  shows "\<exists>h' s' b'.
           ds_snake_move (Some a) h (Some s) (Some b) dx dy = Inr (h', s', b') \<and>
           len_C s' = DS_FULL_GROWN_LEN \<and>
           snake_chain h' s' (a # butlast as) \<and>
           cells h' (a # butlast as) = moved b (hd (cells h as)) dx dy # butlast (cells h as) \<and>
           fmlookup h' (last as) = None \<and>
           b' = b\<lparr>text_C := (text_C b)
                  [cell_index b (moved b (hd (cells h as)) dx dy) := DS_CHAR_SNAKE_BODY,
                   cell_index b (last (cells h as)) := DS_CHAR_FLOOR]\<rparr> \<and>
           board_at b' (x_C (last (cells h as))) (y_C (last (cells h as))) = DS_CHAR_FLOOR \<and>
           (moved b (hd (cells h as)) dx dy \<noteq> last (cells h as) \<longrightarrow>
              board_at b' (x_C (moved b (hd (cells h as)) dx dy))
                (y_C (moved b (hd (cells h as)) dx dy)) = DS_CHAR_SNAKE_BODY)"
proof -
  let ?np = "moved b (hd (cells h as)) dx dy" and ?tp = "last (cells h as)"
  let ?t = "(text_C b)[cell_index b ?np := DS_CHAR_SNAKE_BODY, cell_index b ?tp := DS_CHAR_FLOOR]"
  from assms(1,2) have full: "length as = 15"
    by (simp add: chain_length_full)
  then have ne: "as \<noteq> []"
    by auto
  from snake_on_board_tail [OF assms(5) ne] have tp: "on_board b ?tp" .
  from assms(4) have np: "on_board b ?np"
    by (simp add: moved_on_board board_inv_dims)
  from snake_move_full [OF assms(1,3,4) full assms(6) tp]
  obtain h' s' where run: "ds_snake_move (Some a) h (Some s) (Some b) dx dy =
        Inr (h', s', b\<lparr>text_C := ?t\<rparr>)"
    and chain': "snake_chain h' s' (a # butlast as)"
    and cells': "cells h' (a # butlast as) = ?np # butlast (cells h as)"
    and len': "len_C s' = len_C s"
    and gone: "fmlookup h' (last as) = None"
    by blast
  from cell_index_less [OF assms(4) tp] cell_index_less [OF assms(4) np] assms(4)
  have bound: "cell_index b ?tp < length (text_C b)" "cell_index b ?np < length (text_C b)"
    by (simp_all add: board_inv_def)
  have floor: "board_at (b\<lparr>text_C := ?t\<rparr>) (x_C ?tp) (y_C ?tp) = DS_CHAR_FLOOR"
    using bound by (simp add: board_at_text_upd [OF assms(4) tp])
  have body: "?np \<noteq> ?tp \<longrightarrow> board_at (b\<lparr>text_C := ?t\<rparr>) (x_C ?np) (y_C ?np) = DS_CHAR_SNAKE_BODY"
  proof
    assume "?np \<noteq> ?tp"
    with cell_index_inject [OF np tp] have "cell_index b ?np \<noteq> cell_index b ?tp"
      by blast
    with bound show "board_at (b\<lparr>text_C := ?t\<rparr>) (x_C ?np) (y_C ?np) = DS_CHAR_SNAKE_BODY"
      by (simp add: board_at_text_upd [OF assms(4) np])
  qed
  from run chain' cells' len' gone floor body assms(2) show ?thesis
    by auto
qed

theorem snake_move_full_grown_witness:
  "snake_chain column_heap column_snake column_chain \<and>
   len_C column_snake = DS_FULL_GROWN_LEN \<and>
   fmlookup column_heap 16 = None \<and>
   board_inv column_board \<and>
   snake_on_board column_heap column_chain column_board \<and>
   valid_direction 1 0 \<and>
   (\<exists>h' s' b'.
      ds_snake_move (Some 16) column_heap (Some column_snake) (Some column_board) 1 0 =
        Inr (h', s', b') \<and>
      len_C s' = DS_FULL_GROWN_LEN \<and>
      snake_chain h' s' (16 # butlast column_chain) \<and>
      fmlookup h' 1 = None \<and>
      board_at b' 1 7 = DS_CHAR_FLOOR \<and>
      board_at b' 2 8 = DS_CHAR_SNAKE_BODY)"
proof -
  have valid: "valid_direction 1 0"
    by (simp add: valid_direction_def)
  have np: "moved column_board \<lparr>x_C = 1, y_C = 8\<rparr> 1 0 = \<lparr>x_C = 2, y_C = 8\<rparr>"
    by (simp add: moved_def column_board_def)
  from snake_move_full_grown [OF column_chain_ok column_facts(1,2) column_board_ok
      column_on_board valid]
  obtain h' s' b' where
    "ds_snake_move (Some 16) column_heap (Some column_snake) (Some column_board) 1 0 =
        Inr (h', s', b')"
    "len_C s' = DS_FULL_GROWN_LEN"
    "snake_chain h' s' (16 # butlast column_chain)"
    "fmlookup h' (last column_chain) = None"
    "board_at b' 1 7 = DS_CHAR_FLOOR"
    "board_at b' 2 8 = DS_CHAR_SNAKE_BODY"
    unfolding column_facts np by auto
  moreover have "last column_chain = 1"
    by (simp add: column_chain_def)
  ultimately show ?thesis
    using column_chain_ok column_facts(1,2) column_board_ok column_on_board valid
    by auto
qed

text \<open>
  The claim C1 as stated (the board cell of the added head is marked as snake body)
  fails on a terminal of 3 columns and 15 lines where the snake has only moved up.
  After the set-up and 14 moves the snake is full-grown and fills column 1; the next
  call of \<^verbatim>\<open>ds_snake_move\<close> puts the head at \<open>(1, 7)\<close>, where the tail was, and
  the board shows the floor character there.
\<close>

theorem full_grown_head_cell_counterexample:
  "column_start = Inr (column_heap, column_snake, column_board) \<and>
   snake_chain column_heap column_snake column_chain \<and>
   len_C column_snake = DS_FULL_GROWN_LEN \<and>
   fmlookup column_heap 16 = None \<and>
   board_inv column_board \<and>
   snake_on_board column_heap column_chain column_board \<and>
   valid_direction 0 (-1) \<and>
   head_seen (ds_snake_move (Some 16) column_heap (Some column_snake) (Some column_board) 0 (-1)) =
     Some (\<lparr>x_C = 1, y_C = 7\<rparr>, DS_CHAR_FLOOR) \<and>
   DS_CHAR_FLOOR \<noteq> DS_CHAR_SNAKE_BODY"
proof -
  have "head_seen (ds_snake_move (Some 16) column_heap (Some column_snake) (Some column_board) 0 (-1)) =
     Some (\<lparr>x_C = 1, y_C = 7\<rparr>, DS_CHAR_FLOOR)"
    by (simp add: head_seen_def ds_snake_move_def ds_snake_add_head_def ds_snake_cut_tail_def
        deref_def moved_def board_put_def board_at_def column_heap_lookup column_part_def
        column_snake_def column_board_def DS_FULL_GROWN_LEN_def length_help_str Let_def)
  then show ?thesis
    using column_start_result column_chain_ok column_board_ok column_on_board
    by (simp add: column_snake_def DS_FULL_GROWN_LEN_def column_heap_lookup valid_direction_def
        DS_CHAR_FLOOR_def DS_CHAR_SNAKE_BODY_def)
qed

text \<open>
  Claim C10. \<^verbatim>\<open>ds_snake_move\<close> writes the snake body to the cell of the new head
  before it writes the floor to the cell of the removed tail: the new buffer is the
  old one updated in this order. So for a full-grown snake whose new head position is
  the position of its tail, the board shows the floor character at the position of
  the head part after the call.
\<close>

theorem snake_move_head_onto_tail:
  assumes "snake_chain h s as" and "len_C s = DS_FULL_GROWN_LEN"
    and "fmlookup h a = None" and "board_inv b" and "snake_on_board h as b"
    and "valid_direction dx dy"
  shows "\<exists>h' s' b' part.
           ds_snake_move (Some a) h (Some s) (Some b) dx dy = Inr (h', s', b') \<and>
           text_C b' = (text_C b)
                  [cell_index b (moved b (hd (cells h as)) dx dy) := DS_CHAR_SNAKE_BODY,
                   cell_index b (last (cells h as)) := DS_CHAR_FLOOR] \<and>
           deref h' (head_C s') = Inr part \<and>
           pos_C part = moved b (hd (cells h as)) dx dy \<and>
           (moved b (hd (cells h as)) dx dy = last (cells h as) \<longrightarrow>
              board_at b' (x_C (pos_C part)) (y_C (pos_C part)) = DS_CHAR_FLOOR)"
proof -
  let ?np = "moved b (hd (cells h as)) dx dy" and ?tp = "last (cells h as)"
  let ?t = "(text_C b)[cell_index b ?np := DS_CHAR_SNAKE_BODY, cell_index b ?tp := DS_CHAR_FLOOR]"
  from assms(1,2) have full: "length as = 15"
    by (simp add: chain_length_full)
  then have ne: "as \<noteq> []"
    by auto
  from snake_on_board_tail [OF assms(5) ne] have tp: "on_board b ?tp" .
  from snake_move_full [OF assms(1,3,4) full assms(6) tp]
  obtain h' s' where run: "ds_snake_move (Some a) h (Some s) (Some b) dx dy =
        Inr (h', s', b\<lparr>text_C := ?t\<rparr>)"
    and chain': "snake_chain h' s' (a # butlast as)"
    and cells': "cells h' (a # butlast as) = ?np # butlast (cells h as)"
    by blast
  from chain_head [OF chain'] cells' obtain part
    where part: "deref h' (head_C s') = Inr part" "pos_C part = ?np"
    by auto
  from cell_index_less [OF assms(4) tp] assms(4)
  have "cell_index b ?tp < length (text_C b)"
    by (simp add: board_inv_def)
  then have floor: "board_at (b\<lparr>text_C := ?t\<rparr>) (x_C ?tp) (y_C ?tp) = DS_CHAR_FLOOR"
    by (simp add: board_at_text_upd [OF assms(4) tp])
  have "?np = ?tp \<longrightarrow>
      board_at (b\<lparr>text_C := ?t\<rparr>) (x_C (pos_C part)) (y_C (pos_C part)) = DS_CHAR_FLOOR"
  proof
    assume "?np = ?tp"
    with part(2) have "pos_C part = ?tp"
      by simp
    then show "board_at (b\<lparr>text_C := ?t\<rparr>) (x_C (pos_C part)) (y_C (pos_C part)) = DS_CHAR_FLOOR"
      unfolding \<open>pos_C part = ?tp\<close> using floor by blast
  qed
  with run part show ?thesis
    by auto
qed

theorem snake_move_head_onto_tail_witness:
  "snake_chain column_heap column_snake column_chain \<and>
   len_C column_snake = DS_FULL_GROWN_LEN \<and>
   fmlookup column_heap 16 = None \<and>
   board_inv column_board \<and>
   snake_on_board column_heap column_chain column_board \<and>
   valid_direction 0 (-1) \<and>
   moved column_board (hd (cells column_heap column_chain)) 0 (-1) =
     last (cells column_heap column_chain) \<and>
   (\<exists>h' s' b' part.
      ds_snake_move (Some 16) column_heap (Some column_snake) (Some column_board) 0 (-1) =
        Inr (h', s', b') \<and>
      deref h' (head_C s') = Inr part \<and>
      pos_C part = \<lparr>x_C = 1, y_C = 7\<rparr> \<and>
      board_at b' 1 7 = DS_CHAR_FLOOR)"
proof -
  have valid: "valid_direction 0 (-1)"
    by (simp add: valid_direction_def)
  have np: "moved column_board \<lparr>x_C = 1, y_C = 8\<rparr> 0 (-1) = \<lparr>x_C = 1, y_C = 7\<rparr>"
    by (simp add: moved_def column_board_def)
  from snake_move_head_onto_tail [OF column_chain_ok column_facts(1,2) column_board_ok
      column_on_board valid]
  obtain h' s' b' part where
    "ds_snake_move (Some 16) column_heap (Some column_snake) (Some column_board) 0 (-1) =
        Inr (h', s', b')"
    "deref h' (head_C s') = Inr part"
    "pos_C part = \<lparr>x_C = 1, y_C = 7\<rparr>"
    "board_at b' (x_C (pos_C part)) (y_C (pos_C part)) = DS_CHAR_FLOOR"
    unfolding column_facts np by auto
  then show ?thesis
    using column_chain_ok column_facts column_board_ok column_on_board valid np
    by auto
qed

text \<open>
  Claim C3. The new head wraps around the edges of the board: its coordinates are
  \<open>(x + dx + width) mod width\<close> and \<open>(y + dy + height) mod height\<close> as integers;
  from \<open>x = 0\<close> a move to the left leads to \<open>width - 1\<close>, from \<open>width - 1\<close>
  a move to the right leads to \<open>0\<close>, and likewise upwards from \<open>y = 0\<close> and
  downwards from \<open>height - 1\<close>. The buffer of a board is one allocated block of
  \<open>width * height + 1\<close> bytes, so no dimension of a board exceeds \<open>2^63\<close>; up to
  that size the sums of line 167 and 168 wrap at most once at \<open>2^64\<close>, which the
  remainder undoes.
\<close>

theorem snake_move_wraps:
  assumes "snake_chain h s as" and "len_C s \<le> DS_FULL_GROWN_LEN"
    and "fmlookup h a = None" and "board_inv b" and "snake_on_board h as b"
    and "valid_direction dx dy"
    and "unat (width_C b) \<le> 2 ^ 63" and "unat (height_C b) \<le> 2 ^ 63"
  shows "\<exists>h' s' b' part.
           ds_snake_move (Some a) h (Some s) (Some b) dx dy = Inr (h', s', b') \<and>
           deref h' (head_C s') = Inr part \<and>
           (let p = hd (cells h as); p' = pos_C part in
              uint (x_C p') = (uint (x_C p) + dx + uint (width_C b)) mod uint (width_C b) \<and>
              uint (y_C p') = (uint (y_C p) + dy + uint (height_C b)) mod uint (height_C b) \<and>
              (dx = -1 \<and> x_C p = 0 \<longrightarrow> x_C p' = width_C b - 1) \<and>
              (dx = 1 \<and> x_C p = width_C b - 1 \<longrightarrow> x_C p' = 0) \<and>
              (dy = -1 \<and> y_C p = 0 \<longrightarrow> y_C p' = height_C b - 1) \<and>
              (dy = 1 \<and> y_C p = height_C b - 1 \<longrightarrow> y_C p' = 0))"
proof -
  let ?p = "hd (cells h as)"
  from assms(1) have ne: "as \<noteq> []" and "unat (len_C s) = length as"
    by (simp_all add: snake_chain_def)
  with assms(2) have short: "length as \<le> 15"
    by (simp add: DS_FULL_GROWN_LEN_def word_le_nat_alt)
  from snake_move_ok [OF assms(1,3,4) short assms(6,5)]
  obtain h' s' b' as' where run: "ds_snake_move (Some a) h (Some s) (Some b) dx dy = Inr (h', s', b')"
    and chain': "snake_chain h' s' as'" and hd': "hd (cells h' as') = moved b ?p dx dy"
    by blast
  from chain_head [OF chain'] hd' obtain part
    where part: "deref h' (head_C s') = Inr part" "pos_C part = moved b ?p dx dy"
    by auto
  from snake_on_board_head [OF assms(5) ne] have x: "x_C ?p < width_C b" and y: "y_C ?p < height_C b"
    by (simp_all add: on_board_def)
  from assms(4) have w: "width_C b \<noteq> 0" and h: "height_C b \<noteq> 0"
    by (simp_all add: board_inv_dims)
  from assms(6) have dx: "dx = 0 \<or> dx = 1 \<or> dx = -1" and dy: "dy = 0 \<or> dy = 1 \<or> dy = -1"
    by (auto simp: valid_direction_def)
  have "uint (x_C (moved b ?p dx dy)) = (uint (x_C ?p) + dx + uint (width_C b)) mod uint (width_C b)"
    using moved_uint [OF x assms(7) dx] by (simp add: moved_def)
  moreover
  have "uint (y_C (moved b ?p dx dy)) = (uint (y_C ?p) + dy + uint (height_C b)) mod uint (height_C b)"
    using moved_uint [OF y assms(8) dy] by (simp add: moved_def)
  moreover
  have "x_C ?p = 0 \<longrightarrow> x_C (moved b ?p (-1) dy) = width_C b - 1"
    using wrap_left [OF w] by (simp add: moved_def)
  moreover
  have "x_C ?p = width_C b - 1 \<longrightarrow> x_C (moved b ?p 1 dy) = 0"
    using wrap_right [OF w assms(7)] by (simp add: moved_def)
  moreover
  have "y_C ?p = 0 \<longrightarrow> y_C (moved b ?p dx (-1)) = height_C b - 1"
    using wrap_left [OF h] by (simp add: moved_def)
  moreover
  have "y_C ?p = height_C b - 1 \<longrightarrow> y_C (moved b ?p dx 1) = 0"
    using wrap_right [OF h assms(8)] by (simp add: moved_def)
  ultimately show ?thesis
    using run part by (auto simp: Let_def)
qed

theorem snake_move_wraps_witness:
  "snake_chain corner_heap corner_snake [2] \<and> len_C corner_snake \<le> DS_FULL_GROWN_LEN \<and>
   fmlookup corner_heap 3 = None \<and> board_inv corner_board \<and>
   snake_on_board corner_heap [2] corner_board \<and> valid_direction (-1) 0 \<and>
   unat (width_C corner_board) \<le> 2 ^ 63 \<and> unat (height_C corner_board) \<le> 2 ^ 63 \<and>
   x_C (hd (cells corner_heap [2])) = 0 \<and>
   (\<exists>h' s' b' part.
      ds_snake_move (Some 3) corner_heap (Some corner_snake) (Some corner_board) (-1) 0 =
        Inr (h', s', b') \<and>
      deref h' (head_C s') = Inr part \<and>
      x_C (pos_C part) = 3 \<and> uint (y_C (pos_C part)) = 0)"
proof -
  have len: "len_C corner_snake \<le> DS_FULL_GROWN_LEN"
    by (simp add: corner_snake_def DS_FULL_GROWN_LEN_def)
  have fresh: "fmlookup corner_heap 3 = None"
    by (simp add: corner_heap_def)
  have valid: "valid_direction (-1) 0"
    by (simp add: valid_direction_def)
  have dims: "unat (width_C corner_board) \<le> 2 ^ 63" "unat (height_C corner_board) \<le> 2 ^ 63"
    by (simp_all add: corner_board_def)
  from snake_move_wraps [OF corner_chain_ok len fresh corner_board_ok corner_on_board valid dims]
  obtain h' s' b' part where
    "ds_snake_move (Some 3) corner_heap (Some corner_snake) (Some corner_board) (-1) 0 =
        Inr (h', s', b')"
    "deref h' (head_C s') = Inr part"
    "x_C (pos_C part) = width_C corner_board - 1"
    "uint (y_C (pos_C part)) = (0 + 0 + uint (height_C corner_board)) mod uint (height_C corner_board)"
    by (auto simp: Let_def corner_cells)
  then show ?thesis
    using corner_chain_ok len fresh corner_board_ok corner_on_board valid dims
    by (auto simp: corner_cells corner_board_def)
qed

text \<open>
  Claim C4. In every state reached from \<^verbatim>\<open>ds_snake_create\<close> by calls of
  \<^verbatim>\<open>ds_snake_move\<close> that return, \<open>1 \<le> len \<le> 15\<close>, and \<^verbatim>\<open>head\<close> and \<^verbatim>\<open>tail\<close> point
  to the two ends of the chain of \<^verbatim>\<open>len\<close> parts: the part at \<^verbatim>\<open>head\<close> has no
  predecessor, the part at \<^verbatim>\<open>tail\<close> has no successor.
\<close>

theorem reachable_invariant:
  assumes "reachable (h, s, b)"
  shows "1 \<le> len_C s \<and> len_C s \<le> DS_FULL_GROWN_LEN \<and> snake_inv h s \<and>
         unat (len_C s) = length (segments h s) \<and>
         head_C s = Some (hd (segments h s)) \<and> tail_C s = Some (last (segments h s)) \<and>
         (\<exists>first final.
            deref h (head_C s) = Inr first \<and> prev_C first = None \<and>
            deref h (tail_C s) = Inr final \<and> next_C final = None)"
proof -
  from reachable_chain [OF assms] obtain as
    where chain: "snake_chain h s as" and short: "length as \<le> 15"
    by auto
  from chain have seg: "segments h s = as"
    by (rule chain_segments)
  from chain have len: "unat (len_C s) = length as" and ne: "as \<noteq> []"
    by (simp_all add: snake_chain_def)
  from len ne have "1 \<le> unat (len_C s)"
    by (cases as) auto
  then have "1 \<le> len_C s"
    by (simp add: word_le_nat_alt)
  moreover from len short have "len_C s \<le> DS_FULL_GROWN_LEN"
    by (simp add: DS_FULL_GROWN_LEN_def word_le_nat_alt)
  moreover from chain seg have "snake_inv h s"
    by (simp add: snake_inv_def)
  moreover from chain_head [OF chain] chain_tail [OF chain]
  have "\<exists>first final.
            deref h (head_C s) = Inr first \<and> prev_C first = None \<and>
            deref h (tail_C s) = Inr final \<and> next_C final = None"
    "head_C s = Some (hd as)" "tail_C s = Some (last as)"
    by auto
  ultimately show ?thesis
    using seg len by simp
qed

theorem reachable_invariant_witness:
  "reachable (corner_heap_left, corner_snake_left, corner_board_left) \<and>
   1 \<le> len_C corner_snake_left \<and> len_C corner_snake_left \<le> DS_FULL_GROWN_LEN \<and>
   snake_inv corner_heap_left corner_snake_left \<and>
   segments corner_heap_left corner_snake_left = [3, 2] \<and>
   head_C corner_snake_left = Some (hd (segments corner_heap_left corner_snake_left)) \<and>
   tail_C corner_snake_left = Some (last (segments corner_heap_left corner_snake_left))"
proof -
  have "ds_snake_create (Some 1) (Some 2) fmempty 0 0 = Inr (corner_heap, corner_snake)"
    by (simp add: ds_snake_create_def corner_heap_def corner_snake_def)
  then have "reachable (corner_heap, corner_snake, corner_board)"
    by (rule reachable.create [rotated]) simp
  moreover have "fmlookup corner_heap 3 = None"
    by (simp add: corner_heap_def)
  moreover have "ds_snake_move (Some 3) corner_heap (Some corner_snake) (Some corner_board) (-1) 0 =
      Inr (corner_heap_left, corner_snake_left, corner_board_left)"
    by (simp add: ds_snake_move_def ds_snake_add_head_def ds_snake_cut_tail_def deref_def
        moved_def board_put_def DS_FULL_GROWN_LEN_def Let_def corner_heap_def corner_snake_def
        corner_board_def corner_heap_left_def corner_snake_left_def corner_board_left_def)
  ultimately have reached: "reachable (corner_heap_left, corner_snake_left, corner_board_left)"
    by (rule reachable.move)
  have "unat (len_C corner_snake_left) = Suc (Suc 0)"
    by (simp add: corner_snake_left_def)
  then have "segments corner_heap_left corner_snake_left = [3, 2]"
    by (simp add: segments_def corner_heap_left_def corner_heap_def)
      (simp add: corner_snake_left_def)
  with reachable_invariant [OF reached] reached show ?thesis
    by simp
qed

section \<open>Creating the board: the grid\<close>

text \<open>
  Claim C9. For positive \<^verbatim>\<open>width\<close> and \<^verbatim>\<open>height\<close>, \<^verbatim>\<open>ds_board_create\<close> returns a
  board of exactly \<open>width * height\<close> cells (followed by the terminating NUL), laid
  out row after row; the cells are the help string, cut off at \<open>width * height\<close>
  characters, followed by floor characters only. The call returns provided the three
  calls of \<^verbatim>\<open>malloc\<close> succeed and the two requested sizes, \<open>width * height + 1\<close>
  and \<open>8 * height\<close>, fit into \<^verbatim>\<open>size_t\<close>.
\<close>

theorem board_create_grid:
  assumes "0 < width" and "0 < height"
    and "unat width * unat height + 1 < 2 ^ 64" and "8 * unat height < 2 ^ 64"
  shows "\<exists>b. ds_board_create (Some a) (Some text_block) (Some array_block) width height = Inr b \<and>
           width_C b = width \<and> height_C b = height \<and> board_inv b \<and>
           length (text_C b) = unat width * unat height + 1 \<and>
           text_C b ! (unat width * unat height) = NUL \<and>
           take (unat width * unat height) (text_C b) =
             take (unat width * unat height) help_str @
             replicate (unat width * unat height - length help_str) DS_CHAR_FLOOR \<and>
           (\<forall>p. on_board b p \<longrightarrow>
              board_at b (x_C p) (y_C p) =
                (if cell_index b p < length help_str then help_str ! cell_index b p
                 else DS_CHAR_FLOOR))"
proof -
  let ?n = "unat width * unat height"
  let ?cells = "take ?n help_str @ replicate (?n - length help_str) DS_CHAR_FLOOR"
  let ?b = "\<lparr>text_C = ?cells @ [NUL], array_C = map (\<lambda>y. y * unat width) [0..<unat height],
             height_C = height, width_C = width\<rparr>"
  have run: "ds_board_create (Some a) (Some text_block) (Some array_block) width height = Inr ?b"
    using ds_board_create_ok [OF assms] by simp
  have inv: "board_inv ?b"
    using board_create_inv [OF assms(1,2)] by simp
  have len: "length ?cells = ?n"
    by (simp add: length_help_str)
  then have nul: "(?cells @ [NUL]) ! ?n = NUL"
    by (metis nth_append_length)
  have cells: "take ?n (?cells @ [NUL]) = ?cells"
    using len by simp
  have at: "\<forall>p. on_board ?b p \<longrightarrow>
              board_at ?b (x_C p) (y_C p) =
                (if cell_index ?b p < length help_str then help_str ! cell_index ?b p
                 else DS_CHAR_FLOOR)"
  proof (intro allI impI)
    fix p
    assume on: "on_board ?b p"
    define i where "i = cell_index ?b p"
    from cell_index_less [OF inv on] have less: "i < ?n"
      by (simp add: i_def)
    with len have "i < length ?cells"
      by (simp only:)
    then have "(?cells @ [NUL]) ! i = ?cells ! i"
      by (rule nth_append_left)
    also from less have "\<dots> = (if i < length help_str then help_str ! i else DS_CHAR_FLOOR)"
      by (rule grid_nth)
    finally have "text_C ?b ! i = (if i < length help_str then help_str ! i else DS_CHAR_FLOOR)"
      by simp
    with board_at_on_board [OF inv on]
    show "board_at ?b (x_C p) (y_C p) =
                (if cell_index ?b p < length help_str then help_str ! cell_index ?b p
                 else DS_CHAR_FLOOR)"
      unfolding i_def by (simp only:)
  qed
  from run inv len nul cells at show ?thesis
    by (intro exI [of _ ?b]) simp
qed

theorem board_create_grid_witness:
  "(0 :: size_t) < 10 \<and> (0 :: size_t) < 5 \<and> unat (10 :: size_t) * unat (5 :: size_t) + 1 < 2 ^ 64 \<and>
   8 * unat (5 :: size_t) < 2 ^ 64 \<and>
   (\<exists>b. ds_board_create (Some 10) (Some junk_text) (Some junk_array) 10 5 = Inr b \<and>
        length (text_C b) = 51 \<and>
        take 50 (text_C b) = help_str @ replicate 18 DS_CHAR_FLOOR)"
proof -
  have h: "(0 :: size_t) < 10" "(0 :: size_t) < 5" "unat (10 :: size_t) * unat (5 :: size_t) + 1 < 2 ^ 64"
    "8 * unat (5 :: size_t) < 2 ^ 64"
    by simp_all
  from board_create_grid [OF h, of 10 junk_text junk_array] obtain b where
    "ds_board_create (Some 10) (Some junk_text) (Some junk_array) 10 5 = Inr b"
    "length (text_C b) = unat (10 :: size_t) * unat (5 :: size_t) + 1"
    "take (unat (10 :: size_t) * unat (5 :: size_t)) (text_C b) =
       take (unat (10 :: size_t) * unat (5 :: size_t)) help_str @
       replicate (unat (10 :: size_t) * unat (5 :: size_t) - length help_str) DS_CHAR_FLOOR"
    by blast
  then show ?thesis
    using h by (simp add: length_help_str)
qed

section \<open>Handling the keys\<close>

lemmas key_defs = key_q_def key_p_def KEY_LEFT_def KEY_RIGHT_def KEY_UP_def KEY_DOWN_def

lemma game_key_prev_key [simp]: "prev_key_G (game_key key g) = prev_key_G g"
  by (simp add: game_key_def)

lemma game_key_arrows:
  "game_key KEY_LEFT g = (if dx_G g = 0 then g\<lparr>dx_G := -1, dy_G := 0\<rparr> else g)"
  "game_key KEY_RIGHT g = (if dx_G g = 0 then g\<lparr>dx_G := 1, dy_G := 0\<rparr> else g)"
  "game_key KEY_UP g = (if dy_G g = 0 then g\<lparr>dx_G := 0, dy_G := -1\<rparr> else g)"
  "game_key KEY_DOWN g = (if dy_G g = 0 then g\<lparr>dx_G := 0, dy_G := 1\<rparr> else g)"
  by (simp_all add: game_key_def key_defs)

lemma game_keys_single:
  "key \<noteq> -1 \<Longrightarrow> \<not> quit_G g \<Longrightarrow> fst (game_keys g [key]) = game_key key (g\<lparr>prev_key_G := key\<rparr>)"
  by (simp add: game_keys_def)

lemma register_keys_quit: "quit_G g \<Longrightarrow> register_keys keys g = g"
  by (cases keys) simp_all

lemma remdups_adj_hd: "remdups_adj (x # xs) = x # tl (remdups_adj (x # xs))"
  by (cases xs) auto

lemma getch_loop_register:
  "-1 \<notin> set pending \<Longrightarrow>
     fst (game_getch_loop g pending) = register_keys (tl (remdups_adj (prev_key_G g # pending))) g"
proof (induction pending arbitrary: g)
  case Nil
  then show ?case by simp
next
  case (Cons key pending)
  show ?case
  proof (cases "quit_G g")
    case True
    then show ?thesis
      by (simp add: register_keys_quit)
  next
    case False
    from Cons.prems have key: "key \<noteq> -1" and rest: "-1 \<notin> set pending"
      by auto
    show ?thesis
    proof (cases "key = prev_key_G g")
      case True
      with False key Cons.IH [OF rest, of g] show ?thesis
        by simp
    next
      case new: False
      let ?g' = "game_key key (g\<lparr>prev_key_G := key\<rparr>)"
      have "fst (game_getch_loop g (key # pending)) = fst (game_getch_loop ?g' pending)"
        using False key new by simp
      also from Cons.IH [OF rest, of ?g']
      have "\<dots> = register_keys (tl (remdups_adj (key # pending))) ?g'"
        by simp
      also have "\<dots> = register_keys (key # tl (remdups_adj (key # pending))) g"
        by (simp only: register_keys.simps False if_False)
      also have "key # tl (remdups_adj (key # pending)) = remdups_adj (key # pending)"
        by (rule remdups_adj_hd [symmetric])
      also from new have "remdups_adj (key # pending) = tl (remdups_adj (prev_key_G g # key # pending))"
        by simp
      finally show ?thesis .
    qed
  qed
qed

text \<open>
  Claim C5. The \<^verbatim>\<open>switch\<close> sets the direction to \<open>(-1, 0)\<close> for the left and to
  \<open>(1, 0)\<close> for the right arrow key exactly when the current \<^verbatim>\<open>dx\<close> is 0, and to
  \<open>(0, -1)\<close> for the up and \<open>(0, 1)\<close> for the down arrow key exactly when the
  current \<^verbatim>\<open>dy\<close> is 0; otherwise it changes nothing. In particular, while the
  direction is \<open>(1, 0)\<close>, a drain pass with a left key event leaves it \<open>(1, 0)\<close>,
  one with an up key event makes it \<open>(0, -1)\<close>, one with a down key event
  \<open>(0, 1)\<close>.
\<close>

theorem reversal_guard:
  "game_key KEY_LEFT g = (if dx_G g = 0 then g\<lparr>dx_G := -1, dy_G := 0\<rparr> else g) \<and>
   game_key KEY_RIGHT g = (if dx_G g = 0 then g\<lparr>dx_G := 1, dy_G := 0\<rparr> else g) \<and>
   game_key KEY_UP g = (if dy_G g = 0 then g\<lparr>dx_G := 0, dy_G := -1\<rparr> else g) \<and>
   game_key KEY_DOWN g = (if dy_G g = 0 then g\<lparr>dx_G := 0, dy_G := 1\<rparr> else g) \<and>
   (dx_G g = 1 \<and> dy_G g = 0 \<and> \<not> quit_G g \<longrightarrow>
      (dx_G (fst (game_keys g [KEY_LEFT])), dy_G (fst (game_keys g [KEY_LEFT]))) = (1, 0) \<and>
      (dx_G (fst (game_keys g [KEY_UP])), dy_G (fst (game_keys g [KEY_UP]))) = (0, -1) \<and>
      (dx_G (fst (game_keys g [KEY_DOWN])), dy_G (fst (game_keys g [KEY_DOWN]))) = (0, 1))"
proof -
  have "KEY_LEFT \<noteq> -1" "KEY_UP \<noteq> -1" "KEY_DOWN \<noteq> -1"
    by (simp_all add: key_defs)
  then have "dx_G g = 1 \<and> dy_G g = 0 \<and> \<not> quit_G g \<longrightarrow>
      (dx_G (fst (game_keys g [KEY_LEFT])), dy_G (fst (game_keys g [KEY_LEFT]))) = (1, 0) \<and>
      (dx_G (fst (game_keys g [KEY_UP])), dy_G (fst (game_keys g [KEY_UP]))) = (0, -1) \<and>
      (dx_G (fst (game_keys g [KEY_DOWN])), dy_G (fst (game_keys g [KEY_DOWN]))) = (0, 1)"
    by (simp add: game_keys_single game_key_arrows)
  then show ?thesis
    by (simp only: game_key_arrows simp_thms)
qed

theorem reversal_guard_witness:
  "dx_G corner_game = 1 \<and> dy_G corner_game = 0 \<and> \<not> quit_G corner_game \<and>
   (dx_G (fst (game_keys corner_game [KEY_LEFT])), dy_G (fst (game_keys corner_game [KEY_LEFT]))) = (1, 0) \<and>
   (dx_G (fst (game_keys corner_game [KEY_UP])), dy_G (fst (game_keys corner_game [KEY_UP]))) = (0, -1) \<and>
   (dx_G (fst (game_keys corner_game [KEY_DOWN])), dy_G (fst (game_keys corner_game [KEY_DOWN]))) = (0, 1)"
proof -
  have start: "dx_G corner_game = 1 \<and> dy_G corner_game = 0 \<and> \<not> quit_G corner_game"
    by (simp add: corner_game_def)
  with reversal_guard [of corner_game] show ?thesis
    by blast
qed

text \<open>
  Claim C6. One drain pass over pending key events acts as if each run of equal
  adjacent keys were a single key: the keys that differ from their predecessor are
  registered in order, each once, until the quit flag is set. In particular a queue
  that holds the same key several times registers it exactly once.
\<close>

theorem key_deduplication:
  "(-1 \<notin> set pending \<longrightarrow>
      fst (game_keys g pending) = register_keys (remdups_adj pending) (g\<lparr>prev_key_G := -1\<rparr>)) \<and>
   (key \<noteq> -1 \<and> \<not> quit_G g \<longrightarrow>
      fst (game_keys g (replicate (Suc n) key)) = game_key key (g\<lparr>prev_key_G := key\<rparr>))"
proof -
  have drain: "fst (game_keys g ks) = register_keys (remdups_adj ks) (g\<lparr>prev_key_G := -1\<rparr>)"
    if clean: "-1 \<notin> set ks" for ks
  proof -
    from clean have "tl (remdups_adj (-1 # ks)) = remdups_adj ks"
      by (cases ks) auto
    with getch_loop_register [OF clean, of "g\<lparr>prev_key_G := -1\<rparr>"] show ?thesis
      by (simp add: game_keys_def)
  qed
  have "fst (game_keys g (replicate (Suc n) key)) = game_key key (g\<lparr>prev_key_G := key\<rparr>)"
    if "key \<noteq> -1" "\<not> quit_G g"
  proof -
    from that(1) have "-1 \<notin> set (replicate (Suc n) key)"
      by auto
    from drain [OF this]
    have "fst (game_keys g (replicate (Suc n) key)) = register_keys [key] (g\<lparr>prev_key_G := -1\<rparr>)"
      by (simp only: remdups_adj_replicate) simp
    with that(2) show ?thesis
      by simp
  qed
  with drain show ?thesis
    by blast
qed

theorem key_deduplication_witness:
  "-1 \<notin> set [KEY_UP, KEY_UP, KEY_LEFT, KEY_LEFT, KEY_LEFT] \<and> KEY_UP \<noteq> -1 \<and> \<not> quit_G corner_game \<and>
   fst (game_keys corner_game [KEY_UP, KEY_UP, KEY_LEFT, KEY_LEFT, KEY_LEFT]) =
     corner_game\<lparr>dx_G := -1, dy_G := 0, prev_key_G := KEY_LEFT\<rparr> \<and>
   fst (game_keys corner_game (replicate (Suc 2) KEY_UP)) =
     corner_game\<lparr>dx_G := 0, dy_G := -1, prev_key_G := KEY_UP\<rparr>"
proof -
  have a: "-1 \<notin> set [KEY_UP, KEY_UP, KEY_LEFT, KEY_LEFT, KEY_LEFT]" and b: "KEY_UP \<noteq> -1"
    and c: "\<not> quit_G corner_game"
    by (simp_all add: key_defs corner_game_def)
  have d: "remdups_adj [KEY_UP, KEY_UP, KEY_LEFT, KEY_LEFT, KEY_LEFT] = [KEY_UP, KEY_LEFT]"
    by (simp add: key_defs)
  from key_deduplication [of "[KEY_UP, KEY_UP, KEY_LEFT, KEY_LEFT, KEY_LEFT]" corner_game KEY_UP 2] a b c
  have "fst (game_keys corner_game [KEY_UP, KEY_UP, KEY_LEFT, KEY_LEFT, KEY_LEFT]) =
      register_keys [KEY_UP, KEY_LEFT] (corner_game\<lparr>prev_key_G := -1\<rparr>)"
    and "fst (game_keys corner_game (replicate (Suc 2) KEY_UP)) =
      game_key KEY_UP (corner_game\<lparr>prev_key_G := KEY_UP\<rparr>)"
    unfolding d by simp_all
  then have "fst (game_keys corner_game [KEY_UP, KEY_UP, KEY_LEFT, KEY_LEFT, KEY_LEFT]) =
     corner_game\<lparr>dx_G := -1, dy_G := 0, prev_key_G := KEY_LEFT\<rparr>"
    and "fst (game_keys corner_game (replicate (Suc 2) KEY_UP)) =
     corner_game\<lparr>dx_G := 0, dy_G := -1, prev_key_G := KEY_UP\<rparr>"
    by (simp_all add: game_key_arrows corner_game_def)
  with a b c show ?thesis
    by blast
qed

section \<open>Resizing the terminal\<close>

lemma fmdrop_set_insert: "fmdrop_set A (fmdrop a h) = fmdrop_set (insert a A) h"
  by (rule fmap_ext) simp

lemma destroy_loop_chain:
  "dlist h pv p as \<Longrightarrow> distinct as \<Longrightarrow> ds_snake_destroy_loop h p = Inr (fmdrop_set (set as) h)"
proof (induction as arbitrary: h pv p)
  case Nil
  then show ?case
    by (subst ds_snake_destroy_loop.simps) simp
next
  case (Cons a as)
  from Cons.prems obtain part where p: "p = Some a" and part: "fmlookup h a = Some part"
    and rest: "dlist h (Some a) (next_C part) as" and notin: "a \<notin> set as" and dist: "distinct as"
    by (auto split: option.splits)
  from rest notin have "dlist (fmdrop a h) (Some a) (next_C part) as"
    by (simp add: dlist_drop_other)
  from Cons.IH [OF this dist]
  have "ds_snake_destroy_loop (fmdrop a h) (next_C part) = Inr (fmdrop_set (set (a # as)) h)"
    by (simp add: fmdrop_set_insert)
  with p part show ?case
    by (subst ds_snake_destroy_loop.simps) simp
qed

lemma snake_destroy_chain:
  "snake_chain h s as \<Longrightarrow> ds_snake_destroy h s = Inr (fmdrop_set (set as) h)"
  using destroy_loop_chain [of h None "head_C s" as]
  by (simp add: ds_snake_destroy_def snake_chain_def)

lemma unat_of_int_pos:
  assumes "0 < k" "k < 2 ^ 31"
  shows "unat (word_of_int k :: size_t) = nat k"
proof -
  from assms(1) have "(word_of_int k :: size_t) = word_of_nat (nat k)"
    by simp
  moreover from assms(2) have "nat k < 2 ^ 64"
  proof -
    have "(2 :: int) ^ 31 < 2 ^ 64"
      by simp
    with assms(2) have "k < 2 ^ 64"
      by (rule less_trans)
    with assms(1) show ?thesis
      by (simp add: nat_less_iff)
  qed
  ultimately show ?thesis
    by (simp add: unat_of_nat)
qed

lemma terminal_board_create:
  assumes "0 < COLS" "COLS < 2 ^ 31" "0 < LINES" "LINES < 2 ^ 31"
  shows "\<exists>b. ds_board_create (Some a) (Some text_block) (Some array_block)
              (word_of_int COLS) (word_of_int LINES) = Inr b \<and> board_inv b \<and>
            width_C b = word_of_int COLS \<and> height_C b = word_of_int LINES"
proof -
  let ?w = "word_of_int COLS :: size_t" and ?h = "word_of_int LINES :: size_t"
  have w: "unat ?w = nat COLS" and h: "unat ?h = nat LINES"
    using assms by (simp_all add: unat_of_int_pos)
  from assms have "nat COLS < 2 ^ 31" "nat LINES < 2 ^ 31"
    by (simp_all add: nat_less_iff)
  then have "nat COLS * nat LINES < 2 ^ 31 * 2 ^ 31"
    by (intro mult_strict_mono) simp_all
  then have small: "nat COLS * nat LINES + 1 < 2 ^ 64" "8 * nat LINES < 2 ^ 64"
    using \<open>nat LINES < 2 ^ 31\<close> by simp_all
  from assms w h have pos: "0 < ?w" "0 < ?h"
    by (simp_all add: word_less_nat_alt)
  from small w h have "unat ?w * unat ?h + 1 < 2 ^ 64" "8 * unat ?h < 2 ^ 64"
    by simp_all
  from ds_board_create_ok [OF pos this, of a text_block array_block] board_create_inv [OF pos]
  show ?thesis
    by simp
qed

lemma corner_game_chain: "snake_chain (heap_G corner_game) (snake_G corner_game) [2]"
  by (simp add: corner_game_def corner_chain_ok)

text \<open>
  Claim C8. When \<^verbatim>\<open>COLS\<close> or \<^verbatim>\<open>LINES\<close> differ from the stored values, the resize
  step of the main loop, if it returns, has replaced the board by a newly created one
  and the snake by a new snake of one part at \<open>(COLS / 2, LINES / 2)\<close>, and has stored
  the new dimensions; the direction \<open>(dx, dy)\<close> and the flags \<^verbatim>\<open>paused\<close> and \<^verbatim>\<open>quit\<close>
  are unchanged, so the direction is not reset. The step does return when the
  allocations succeed, the dimensions are positive \<^verbatim>\<open>int\<close> values and the old snake
  is a chain in the heap.
\<close>

theorem resize_keeps_direction:
  assumes "COLS \<noteq> prev_COLS_G g \<or> prev_LINES_G g \<noteq> LINES"
  shows "(game_resize COLS LINES m_board m_text m_array m_snake m_part g = Inr g' \<longrightarrow>
            dx_G g' = dx_G g \<and> dy_G g' = dy_G g \<and>
            paused_G g' = paused_G g \<and> quit_G g' = quit_G g \<and>
            prev_COLS_G g' = COLS \<and> prev_LINES_G g' = LINES \<and>
            ds_board_create m_board m_text m_array (word_of_int COLS) (word_of_int LINES) =
              Inr (board_G g') \<and>
            (\<exists>a. m_part = Some a \<and>
                 snake_G g' = \<lparr>len_C = 1, head_C = Some a, tail_C = Some a\<rparr> \<and>
                 fmlookup (heap_G g') a =
                   Some \<lparr>pos_C = \<lparr>x_C = word_of_int (COLS sdiv 2), y_C = word_of_int (LINES sdiv 2)\<rparr>,
                         prev_C = None, next_C = None\<rparr> \<and>
                 snake_chain (heap_G g') (snake_G g') [a])) \<and>
         (0 < COLS \<and> COLS < 2 ^ 31 \<and> 0 < LINES \<and> LINES < 2 ^ 31 \<and>
          snake_chain (heap_G g) (snake_G g) as \<longrightarrow>
            (\<exists>g''. game_resize COLS LINES (Some mb) (Some text_block) (Some array_block)
                     (Some ms) (Some a') g = Inr g''))"
proof (intro conjI impI)
  assume ret: "game_resize COLS LINES m_board m_text m_array m_snake m_part g = Inr g'"
  with assms obtain board h1 h2 snake where
    board: "ds_board_create m_board m_text m_array (word_of_int COLS) (word_of_int LINES) = Inr board"
    and "ds_snake_destroy (heap_G g) (snake_G g) = Inr h1"
    and snake: "ds_snake_create m_snake m_part h1 (COLS sdiv 2) (LINES sdiv 2) = Inr (h2, snake)"
    and g': "g' = g\<lparr>board_G := board, heap_G := h2, snake_G := snake,
                     prev_COLS_G := COLS, prev_LINES_G := LINES\<rparr>"
    by (auto simp: game_resize_def split: sum.splits if_splits)
  from snake obtain a where a: "m_part = Some a"
    and "snake = \<lparr>len_C = 1, head_C = Some a, tail_C = Some a\<rparr>"
    and "h2 = fmupd a \<lparr>pos_C = \<lparr>x_C = word_of_int (COLS sdiv 2), y_C = word_of_int (LINES sdiv 2)\<rparr>,
                         prev_C = None, next_C = None\<rparr> h1"
    by (auto simp: ds_snake_create_def split: option.splits)
  moreover from snake a have "snake_chain h2 snake [a]"
    by (auto intro: snake_create_chain)
  ultimately have fresh: "\<exists>a. m_part = Some a \<and>
                 snake_G g' = \<lparr>len_C = 1, head_C = Some a, tail_C = Some a\<rparr> \<and>
                 fmlookup (heap_G g') a =
                   Some \<lparr>pos_C = \<lparr>x_C = word_of_int (COLS sdiv 2), y_C = word_of_int (LINES sdiv 2)\<rparr>,
                         prev_C = None, next_C = None\<rparr> \<and>
                 snake_chain (heap_G g') (snake_G g') [a]"
    by (simp add: g')
  show "dx_G g' = dx_G g" "dy_G g' = dy_G g" "paused_G g' = paused_G g" "quit_G g' = quit_G g"
    "prev_COLS_G g' = COLS" "prev_LINES_G g' = LINES"
    by (simp_all add: g')
  from board show "ds_board_create m_board m_text m_array (word_of_int COLS) (word_of_int LINES) =
              Inr (board_G g')"
    by (simp add: g')
  from fresh show "\<exists>a. m_part = Some a \<and>
                 snake_G g' = \<lparr>len_C = 1, head_C = Some a, tail_C = Some a\<rparr> \<and>
                 fmlookup (heap_G g') a =
                   Some \<lparr>pos_C = \<lparr>x_C = word_of_int (COLS sdiv 2), y_C = word_of_int (LINES sdiv 2)\<rparr>,
                         prev_C = None, next_C = None\<rparr> \<and>
                 snake_chain (heap_G g') (snake_G g') [a]" .
next
  assume "0 < COLS \<and> COLS < 2 ^ 31 \<and> 0 < LINES \<and> LINES < 2 ^ 31 \<and>
          snake_chain (heap_G g) (snake_G g) as"
  then have dims: "0 < COLS" "COLS < 2 ^ 31" "0 < LINES" "LINES < 2 ^ 31"
    and chain: "snake_chain (heap_G g) (snake_G g) as"
    by simp_all
  from terminal_board_create [OF dims, of mb text_block array_block] obtain b where
    "ds_board_create (Some mb) (Some text_block) (Some array_block)
              (word_of_int COLS) (word_of_int LINES) = Inr b"
    by blast
  with snake_destroy_chain [OF chain] assms
  show "\<exists>g''. game_resize COLS LINES (Some mb) (Some text_block) (Some array_block)
                     (Some ms) (Some a') g = Inr g''"
    by (simp add: game_resize_def ds_snake_create_def)
qed

theorem resize_keeps_direction_witness:
  "10 \<noteq> prev_COLS_G corner_game \<and>
   (0 :: int) < 10 \<and> (10 :: int) < 2 ^ 31 \<and> (0 :: int) < 5 \<and> (5 :: int) < 2 ^ 31 \<and>
   snake_chain (heap_G corner_game) (snake_G corner_game) [2] \<and>
   (\<exists>g'. game_resize 10 5 (Some 10) (Some junk_text) (Some junk_array) (Some 11) (Some 12)
            corner_game = Inr g' \<and>
         dx_G g' = 1 \<and> dy_G g' = 0 \<and> \<not> paused_G g' \<and> \<not> quit_G g' \<and>
         prev_COLS_G g' = 10 \<and> prev_LINES_G g' = 5 \<and>
         snake_G g' = \<lparr>len_C = 1, head_C = Some 12, tail_C = Some 12\<rparr> \<and>
         fmlookup (heap_G g') 12 =
           Some \<lparr>pos_C = \<lparr>x_C = 5, y_C = 2\<rparr>, prev_C = None, next_C = None\<rparr>)"
proof -
  have changed: "10 \<noteq> prev_COLS_G corner_game \<or> prev_LINES_G corner_game \<noteq> 5"
    by (simp add: corner_game_def)
  have dims: "(0 :: int) < 10 \<and> (10 :: int) < 2 ^ 31 \<and> (0 :: int) < 5 \<and> (5 :: int) < 2 ^ 31"
    by simp
  note inst = resize_keeps_direction [OF changed, of "Some 10" "Some junk_text" "Some junk_array"
      "Some 11" "Some 12" _ "[2]" 10 junk_text junk_array 11 12]
  from inst dims corner_game_chain obtain g' where
    ret: "game_resize 10 5 (Some 10) (Some junk_text) (Some junk_array) (Some 11) (Some 12)
            corner_game = Inr g'"
    by blast
  with inst [of g'] have "dx_G g' = dx_G corner_game" "dy_G g' = dy_G corner_game"
    "paused_G g' = paused_G corner_game" "quit_G g' = quit_G corner_game"
    "prev_COLS_G g' = 10" "prev_LINES_G g' = 5"
    "snake_G g' = \<lparr>len_C = 1, head_C = Some 12, tail_C = Some 12\<rparr>"
    "fmlookup (heap_G g') 12 =
       Some \<lparr>pos_C = \<lparr>x_C = word_of_int (10 sdiv 2), y_C = word_of_int (5 sdiv 2)\<rparr>,
             prev_C = None, next_C = None\<rparr>"
    by auto
  moreover have "(10 :: int) sdiv 2 = 5" "(5 :: int) sdiv 2 = 2"
    by (simp_all add: signed_divide_int_def)
  moreover have "10 \<noteq> prev_COLS_G corner_game"
    by (simp add: corner_game_def)
  ultimately show ?thesis
    using dims corner_game_chain ret by (auto simp: corner_game_def)
qed

section \<open>The start of a game\<close>

lemma put_snake_loop_chain:
  "dlist h pv p as \<Longrightarrow> board_inv b \<Longrightarrow> list_all (on_board b) (cells h as) \<Longrightarrow>
     ds_board_put_snake_loop h b p =
       Some (Inr (b\<lparr>text_C := fold (\<lambda>q t. t[cell_index b q := DS_CHAR_SNAKE_BODY]) (cells h as)
                                  (text_C b)\<rparr>))"
proof (induction as arbitrary: b pv p)
  case Nil
  then show ?case
    by (subst ds_board_put_snake_loop.simps) (simp add: cells_def)
next
  case (Cons a as)
  from Cons.prems(1) obtain part where p: "p = Some a" and part: "fmlookup h a = Some part"
    and rest: "dlist h (Some a) (next_C part) as"
    by (auto split: option.splits)
  from Cons.prems(3) part have on: "on_board b (pos_C part)" and ons: "list_all (on_board b) (cells h as)"
    by (simp_all add: cells_def)
  let ?b1 = "b\<lparr>text_C := (text_C b)[cell_index b (pos_C part) := DS_CHAR_SNAKE_BODY]\<rparr>"
  from board_put_on_board [OF Cons.prems(2) on]
  have put: "board_put b (y_C (pos_C part)) (x_C (pos_C part)) DS_CHAR_SNAKE_BODY = Inr ?b1" .
  from Cons.prems(2) have inv1: "board_inv ?b1"
    by (rule board_inv_text_upd)
  from ons have "list_all (on_board ?b1) (cells h as)"
    by simp
  from Cons.IH [OF rest inv1 this]
  have "ds_board_put_snake_loop h ?b1 (next_C part) =
      Some (Inr (b\<lparr>text_C := fold (\<lambda>q t. t[cell_index b q := DS_CHAR_SNAKE_BODY]) (cells h (a # as))
                                  (text_C b)\<rparr>))"
    using part by (simp add: cells_def cell_index_def)
  with p part put show ?case
    by (subst ds_board_put_snake_loop.simps) simp
qed

lemma scenario_board:
  "ds_board_create (Some mb) (Some text_block) (Some array_block) 10 5 =
     Inr \<lparr>text_C = help_str @ replicate 18 DS_CHAR_FLOOR @ [NUL],
          array_C = map (\<lambda>y. y * 10) [0..<5], height_C = 5, width_C = 10\<rparr>"
  using ds_board_create_ok [of 10 5 mb text_block array_block]
  by (simp add: length_help_str)

lemma scenario_board_inv:
  "board_inv \<lparr>text_C = help_str @ replicate 18 DS_CHAR_FLOOR @ [NUL],
          array_C = map (\<lambda>y. y * 10) [0..<5], height_C = 5, width_C = 10\<rparr>"
  by (simp add: board_inv_def length_help_str)

lemma three_calls_result:
  "three_calls =
     Inr (fmupd 12 \<lparr>pos_C = \<lparr>x_C = 5, y_C = 2\<rparr>, prev_C = Some 13, next_C = None\<rparr>
            (fmupd 13 \<lparr>pos_C = \<lparr>x_C = 5, y_C = 1\<rparr>, prev_C = None, next_C = Some 12\<rparr>
               (fmupd 12 \<lparr>pos_C = \<lparr>x_C = 5, y_C = 2\<rparr>, prev_C = None, next_C = None\<rparr> fmempty)),
          \<lparr>len_C = 2, head_C = Some 13, tail_C = Some 12\<rparr>,
          \<lparr>text_C = (help_str @ replicate 18 DS_CHAR_FLOOR @ [NUL])[15 := DS_CHAR_SNAKE_BODY],
           array_C = map (\<lambda>y. y * 10) [0..<5], height_C = 5, width_C = 10\<rparr>)"
  by (simp add: three_calls_def scenario_board ds_snake_create_def ds_snake_move_def
      ds_snake_add_head_def ds_snake_cut_tail_def deref_def moved_def board_put_def
      DS_FULL_GROWN_LEN_def length_help_str Let_def)

text \<open>
  Claim C7, as amended. After \<^verbatim>\<open>ds_board_create(10, 5)\<close>, \<^verbatim>\<open>ds_snake_create(5, 2)\<close>,
  \<^verbatim>\<open>ds_board_put_snake(board, snake)\<close> (the three calls with which \<^verbatim>\<open>game()\<close> sets
  up its data) and then \<^verbatim>\<open>ds_snake_move(snake, board, 0, -1)\<close>, all of which return,
  the head of the snake is at \<open>(5, 1)\<close>, its length is 2, and the board cells
  \<open>(5, 2)\<close> and \<open>(5, 1)\<close> both hold the snake body.
\<close>

theorem scenario_after_put_snake:
  assumes "fmlookup h part2 = None" and "part2 \<noteq> part1"
  shows "\<exists>board0 h0 snake0 board1 h1 snake1 board2 first.
           ds_board_create (Some mb) (Some text_block) (Some array_block) 10 5 = Inr board0 \<and>
           ds_snake_create (Some ms) (Some part1) h 5 2 = Inr (h0, snake0) \<and>
           ds_board_put_snake h0 board0 snake0 = Some (Inr board1) \<and>
           ds_snake_move (Some part2) h0 (Some snake0) (Some board1) 0 (-1) =
             Inr (h1, snake1, board2) \<and>
           deref h1 (head_C snake1) = Inr first \<and> pos_C first = \<lparr>x_C = 5, y_C = 1\<rparr> \<and>
           len_C snake1 = 2 \<and>
           board_at board2 5 2 = DS_CHAR_SNAKE_BODY \<and>
           board_at board2 5 1 = DS_CHAR_SNAKE_BODY"
proof -
  let ?board0 = "\<lparr>text_C = help_str @ replicate 18 DS_CHAR_FLOOR @ [NUL],
          array_C = map (\<lambda>y. y * 10) [0..<5], height_C = 5, width_C = 10 :: size_t\<rparr>"
  let ?start = "\<lparr>x_C = 5, y_C = 2 :: size_t\<rparr>" and ?up = "\<lparr>x_C = 5, y_C = 1 :: size_t\<rparr>"
  let ?h0 = "fmupd part1 \<lparr>pos_C = ?start, prev_C = None, next_C = None\<rparr> h"
  let ?snake0 = "\<lparr>len_C = 1, head_C = Some part1, tail_C = Some part1\<rparr>"
  let ?board1 = "\<lparr>text_C = (help_str @ replicate 18 DS_CHAR_FLOOR @ [NUL])[25 := DS_CHAR_SNAKE_BODY],
          array_C = map (\<lambda>y. y * 10) [0..<5], height_C = 5, width_C = 10 :: size_t\<rparr>"
  let ?board2 = "\<lparr>text_C = (help_str @ replicate 18 DS_CHAR_FLOOR @ [NUL])
            [25 := DS_CHAR_SNAKE_BODY, 15 := DS_CHAR_SNAKE_BODY],
          array_C = map (\<lambda>y. y * 10) [0..<5], height_C = 5, width_C = 10 :: size_t\<rparr>"
  have create: "ds_snake_create (Some ms) (Some part1) h 5 2 = Inr (?h0, ?snake0)"
    by (simp add: ds_snake_create_def)
  then have chain: "snake_chain ?h0 ?snake0 [part1]"
    by (rule snake_create_chain)
  have cells0: "cells ?h0 [part1] = [?start]"
    by (simp add: cells_def)
  have idx: "cell_index ?board0 ?start = 25" "cell_index ?board1 ?up = 15"
    by (simp_all add: cell_index_def)
  from chain have "dlist ?h0 None (head_C ?snake0) [part1]"
    by (simp add: snake_chain_def)
  from put_snake_loop_chain [OF this scenario_board_inv]
  have put: "ds_board_put_snake ?h0 ?board0 ?snake0 = Some (Inr ?board1)"
    unfolding cells0 idx ds_board_put_snake_def by (simp add: on_board_def idx)
  have inv1: "board_inv ?board1"
    by (simp add: board_inv_def length_help_str)
  have up: "moved ?board1 ?start 0 (-1) = ?up"
    by (simp add: moved_def)
  from assms have fresh: "fmlookup ?h0 part2 = None"
    by simp
  have valid: "valid_direction 0 (-1)"
    by (simp add: valid_direction_def)
  have "\<exists>h1 snake1.
      ds_snake_move (Some part2) ?h0 (Some ?snake0) (Some ?board1) 0 (-1) = Inr (h1, snake1, ?board2) \<and>
      snake_chain h1 snake1 [part2, part1] \<and> cells h1 [part2, part1] = [?up, ?start] \<and>
      len_C snake1 = 2"
    using snake_move_grow [OF chain fresh inv1 _ valid] by (simp add: cells0 up idx)
  then obtain h1 snake1 where
    run: "ds_snake_move (Some part2) ?h0 (Some ?snake0) (Some ?board1) 0 (-1) = Inr (h1, snake1, ?board2)"
    and chain1: "snake_chain h1 snake1 [part2, part1]"
    and cells1: "cells h1 [part2, part1] = [?up, ?start]"
    and len1: "len_C snake1 = 2"
    by blast
  from chain_head [OF chain1] cells1 obtain first where
    first: "deref h1 (head_C snake1) = Inr first" "pos_C first = ?up"
    by auto
  have cell: "board_at ?board2 5 2 = DS_CHAR_SNAKE_BODY" "board_at ?board2 5 1 = DS_CHAR_SNAKE_BODY"
    by (simp_all add: board_at_def length_help_str)
  from scenario_board [of mb text_block array_block] create put run first len1 cell
  show ?thesis
    by blast
qed

theorem scenario_after_put_snake_witness:
  "fmlookup fmempty 13 = (None :: snake_part_t option) \<and> (13 :: addr) \<noteq> 12 \<and>
   (\<exists>board0 h0 snake0 board1 h1 snake1 board2 first.
      ds_board_create (Some 10) (Some junk_text) (Some junk_array) 10 5 = Inr board0 \<and>
      ds_snake_create (Some 11) (Some 12) fmempty 5 2 = Inr (h0, snake0) \<and>
      ds_board_put_snake h0 board0 snake0 = Some (Inr board1) \<and>
      ds_snake_move (Some 13) h0 (Some snake0) (Some board1) 0 (-1) = Inr (h1, snake1, board2) \<and>
      deref h1 (head_C snake1) = Inr first \<and> pos_C first = \<lparr>x_C = 5, y_C = 1\<rparr> \<and>
      len_C snake1 = 2 \<and>
      board_at board2 5 2 = DS_CHAR_SNAKE_BODY \<and>
      board_at board2 5 1 = DS_CHAR_SNAKE_BODY)"
proof -
  have fresh: "fmlookup fmempty 13 = (None :: snake_part_t option)" and other: "(13 :: addr) \<noteq> 12"
    by simp_all
  from scenario_after_put_snake [OF fresh other, of 10 junk_text junk_array 11] fresh other
  show ?thesis
    by blast
qed

text \<open>
  The claim C7 as stated, with the three calls \<^verbatim>\<open>ds_board_create\<close>,
  \<^verbatim>\<open>ds_snake_create\<close>, \<^verbatim>\<open>ds_snake_move\<close> only, fails: \<^verbatim>\<open>ds_snake_create\<close> does not
  touch the board, so the cell \<open>(5, 2)\<close> still holds what \<^verbatim>\<open>ds_board_create\<close> has put
  there, the blank at index 25 of the help text. The head is at \<open>(5, 1)\<close> and its
  cell holds the snake body, as claimed.
\<close>

theorem three_calls_counterexample:
  "head_seen three_calls = Some (\<lparr>x_C = 5, y_C = 1\<rparr>, DS_CHAR_SNAKE_BODY) \<and>
   cell_seen 5 2 three_calls = Some DS_CHAR_FLOOR \<and>
   DS_CHAR_FLOOR \<noteq> DS_CHAR_SNAKE_BODY"
  by (simp add: three_calls_result head_seen_def cell_seen_def deref_def board_at_def
      length_help_str help_str_def DS_CHAR_FLOOR_def DS_CHAR_SNAKE_BODY_def)

end
